theory Spec2Isabelle
  imports Complex_Main "HOL-Library.AList" "HOL-Library.Multiset" "HOL-Library.Product_Lexorder"
begin

section \<open>Common ground: exceptions and Python dictionaries\<close>

text \<open>
  The exceptions the modelled code can raise. \<open>NotRunning\<close> and \<open>QueueIsFull\<close> are the two
  \<^verbatim>\<open>RuntimeError\<close>s of \<^verbatim>\<open>InferenceQueue.submit_job\<close> (messages "Inference queue is not
  running" and "Queue is full (max size: ...)"); \<open>QueueFull\<close> and \<open>QueueEmpty\<close> are the
  exceptions of \<^verbatim>\<open>asyncio.Queue\<close>; \<open>LoadError\<close> and \<open>DownloadError\<close> stand for whatever a
  model loader or the object store raises.
\<close>

datatype error =
    KeyError
  | IndexError
  | AttributeError
  | TypeError
  | ZeroDivisionError
  | NotRunning
  | QueueIsFull
  | QueueFull
  | QueueEmpty
  | LoadError string
  | DownloadError string

text \<open>
  A Python \<^verbatim>\<open>dict\<close> (insertion ordered) is an association list with distinct keys:
  \<^verbatim>\<open>d[k] = v\<close> is \<^const>\<open>AList.update\<close> (an existing key keeps its place, a new key goes to the
  end), \<^verbatim>\<open>d.pop(k, None)\<close> is \<^const>\<open>AList.delete\<close>, \<^verbatim>\<open>d.get(k)\<close> is \<^const>\<open>map_of\<close>,
  \<^verbatim>\<open>k in d\<close> is \<open>map_of d k \<noteq> None\<close>, \<^verbatim>\<open>len(d)\<close> is \<^const>\<open>length\<close>.
\<close>

definition dict_keys :: "('k \<times> 'v) list \<Rightarrow> 'k list" where
  "dict_keys d = map fst d"

definition dict_values :: "('k \<times> 'v) list \<Rightarrow> 'v list" where
  "dict_values d = map snd d"

text \<open>\<^verbatim>\<open>OrderedDict.move_to_end(k)\<close>: raises \<^verbatim>\<open>KeyError\<close> when the key is missing.\<close>

definition move_to_end :: "('k \<times> 'v) list \<Rightarrow> 'k \<Rightarrow> error + ('k \<times> 'v) list" where
  "move_to_end d k =
     (case map_of d k of
        None \<Rightarrow> Inl KeyError
      | Some v \<Rightarrow> Inr (AList.delete k d @ [(k, v)]))"

section \<open>Model cache (\<^verbatim>\<open>services/inference/model_cache.py\<close>)\<close>

type_synonym config = "(string \<times> string) list"

record cache_stats =
  hits :: int
  misses :: int
  evictions :: int
  loads :: int

text \<open>
  The fields of \<^verbatim>\<open>ModelCache\<close>. A loaded model is a value of the type parameter \<open>'m\<close>;
  \<^verbatim>\<open>time.time()\<close> readings are reals; sizes are megabytes.
\<close>

record 'm ModelCache =
  max_models :: int
  max_memory_mb :: int
  cache_ttl :: int
  models :: "(string \<times> 'm) list"
  configs :: "(string \<times> config) list"
  access_order :: "(string \<times> real) list"
  load_times :: "(string \<times> real) list"
  model_sizes :: "(string \<times> int) list"
  stats :: cache_stats

text \<open>\<^verbatim>\<open>ModelCache.__init__\<close> (defaults 5, 4096, 3600).\<close>

definition ModelCache_init :: "int \<Rightarrow> int \<Rightarrow> int \<Rightarrow> 'm ModelCache" where
  "ModelCache_init max_models' max_memory_mb' cache_ttl_seconds =
     \<lparr>max_models = max_models', max_memory_mb = max_memory_mb', cache_ttl = cache_ttl_seconds,
      models = [], configs = [], access_order = [], load_times = [], model_sizes = [],
      stats = \<lparr>hits = 0, misses = 0, evictions = 0, loads = 0\<rparr>\<rparr>"

text \<open>\<^verbatim>\<open>sum(self.model_sizes.values())\<close>\<close>

definition total_memory :: "'m ModelCache \<Rightarrow> int" where
  "total_memory c = sum_list (dict_values (model_sizes c))"

subsection \<open>Statistics\<close>

text \<open>
  The dictionary returned by \<^verbatim>\<open>get_stats\<close>. Python's true division of two ints is the
  correctly rounded double of the exact quotient; the model keeps the exact quotient.
\<close>

record stats_view =
  cached_models :: int
  view_max_models :: int
  total_memory_mb :: int
  view_max_memory_mb :: int
  memory_usage_pct :: real
  hit_rate :: real
  view_stats :: cache_stats
  model_list :: "string list"

text \<open>
  \<^verbatim>\<open>
  hit_rate = (self.stats["hits"] / (self.stats["hits"] + self.stats["misses"])
              if (self.stats["hits"] + self.stats["misses"]) > 0 else 0)
  total_memory = sum(self.model_sizes.values())
  return {..., "memory_usage_pct": (total_memory / self.max_memory_mb) * 100, ...}
  \<close>
  The second division has no guard: it raises \<^verbatim>\<open>ZeroDivisionError\<close> when
  \<^verbatim>\<open>max_memory_mb\<close> is 0.
\<close>

definition compute_hit_rate :: "cache_stats \<Rightarrow> real" where
  "compute_hit_rate s =
     (if hits s + misses s > 0 then real_of_int (hits s) / real_of_int (hits s + misses s) else 0)"

definition get_stats :: "'m ModelCache \<Rightarrow> error + stats_view" where
  "get_stats c =
     (let hit_rate' = compute_hit_rate (stats c);
          total = total_memory c
      in if max_memory_mb c = 0 then Inl ZeroDivisionError
         else Inr \<lparr>cached_models = int (length (models c)),
                   view_max_models = max_models c,
                   total_memory_mb = total,
                   view_max_memory_mb = max_memory_mb c,
                   memory_usage_pct = (real_of_int total / real_of_int (max_memory_mb c)) * 100,
                   hit_rate = hit_rate',
                   view_stats = stats c,
                   model_list = dict_keys (models c)\<rparr>)"

subsection \<open>Eviction\<close>

text \<open>
  \<^verbatim>\<open>_estimate_model_memory\<close>: a tenth of the process's resident set size in MB, at least 50;
  100 when \<^verbatim>\<open>psutil\<close> raises. The argument is the \<^verbatim>\<open>rss\<close> reading in bytes (\<open>None\<close>: the
  reading raised). \<^verbatim>\<open>int(rss / (1024 * 1024))\<close> is the floor of the quotient, which the
  double division gives exactly for every \<open>rss\<close> below \<open>2 ^ 53\<close>.
\<close>

definition estimate_model_memory :: "nat option \<Rightarrow> int" where
  "estimate_model_memory rss =
     (case rss of
        None \<Rightarrow> 100
      | Some r \<Rightarrow> (let memory_mb = int r div (1024 * 1024) in max (memory_mb div 10) 50))"

text \<open>
  \<^verbatim>\<open>_evict_lru_model\<close>: nothing when \<^verbatim>\<open>access_order\<close> is empty; otherwise the first key of
  \<^verbatim>\<open>access_order\<close> is popped from all five dictionaries and \<^verbatim>\<open>evictions\<close> is incremented.
\<close>

definition evict_lru_model :: "'m ModelCache \<Rightarrow> 'm ModelCache" where
  "evict_lru_model c =
     (case access_order c of
        [] \<Rightarrow> c
      | (lru_model_id, _) # _ \<Rightarrow>
          c\<lparr>model_sizes := AList.delete lru_model_id (model_sizes c),
            models := AList.delete lru_model_id (models c),
            configs := AList.delete lru_model_id (configs c),
            access_order := AList.delete lru_model_id (access_order c),
            load_times := AList.delete lru_model_id (load_times c),
            stats := (stats c)\<lparr>evictions := evictions (stats c) + 1\<rparr>\<rparr>)"

text \<open>
  The two loops of \<^verbatim>\<open>_ensure_cache_capacity\<close>. Neither has a bound of its own in the source
  (the first spins forever when \<^verbatim>\<open>max_models \<le> 0\<close>), so each is a partial function: \<open>None\<close>
  means that the loop does not return.
  \<^verbatim>\<open>
  while len(self.models) >= self.max_models:
      await self._evict_lru_model()
  while (current_memory + new_model_size) > self.max_memory_mb:
      if not self.models: break
      await self._evict_lru_model()
      current_memory = sum(self.model_sizes.values())
  \<close>
\<close>

partial_function (option) evict_by_count :: "'m ModelCache \<Rightarrow> 'm ModelCache option" where
  "evict_by_count c =
     (if int (length (models c)) \<ge> max_models c then evict_by_count (evict_lru_model c)
      else Some c)"

partial_function (option) evict_by_memory :: "int \<Rightarrow> int \<Rightarrow> 'm ModelCache \<Rightarrow> 'm ModelCache option" where
  "evict_by_memory current_memory new_model_size c =
     (if current_memory + new_model_size > max_memory_mb c then
        (if models c = [] then Some c
         else (let c' = evict_lru_model c
               in evict_by_memory (total_memory c') new_model_size c'))
      else Some c)"

text \<open>
  \<^verbatim>\<open>_ensure_cache_capacity\<close>: \<^verbatim>\<open>current_memory\<close> is read before the first loop and only
  refreshed inside the second.
\<close>

definition ensure_cache_capacity :: "int \<Rightarrow> 'm ModelCache \<Rightarrow> 'm ModelCache option" where
  "ensure_cache_capacity new_model_size c =
     (let current_memory = total_memory c
      in case evict_by_count c of
           None \<Rightarrow> None
         | Some c1 \<Rightarrow> evict_by_memory current_memory new_model_size c1)"

text \<open>
  \<^verbatim>\<open>_add_to_cache\<close>; \<open>rss\<close> is the memory reading of \<^verbatim>\<open>_estimate_model_memory\<close>, \<open>t_access\<close> and
  \<open>t_load\<close> are the two \<^verbatim>\<open>time.time()\<close> readings.
\<close>

definition add_to_cache ::
  "'m ModelCache \<Rightarrow> string \<Rightarrow> 'm \<Rightarrow> config \<Rightarrow> nat option \<Rightarrow> real \<Rightarrow> real \<Rightarrow> 'm ModelCache option" where
  "add_to_cache c model_id model cfg rss t_access t_load =
     (let model_size = estimate_model_memory rss
      in case ensure_cache_capacity model_size c of
           None \<Rightarrow> None
         | Some c1 \<Rightarrow>
             Some (c1\<lparr>models := AList.update model_id model (models c1),
                      configs := AList.update model_id cfg (configs c1),
                      access_order := AList.update model_id t_access (access_order c1),
                      load_times := AList.update model_id t_load (load_times c1),
                      model_sizes := AList.update model_id model_size (model_sizes c1)\<rparr>))"

subsection \<open>Loading\<close>

text \<open>\<^verbatim>\<open>str.lower\<close> on ASCII letters, and \<^verbatim>\<open>str.startswith\<close>.\<close>

definition ascii_lower :: "char \<Rightarrow> char" where
  "ascii_lower ch =
     (case map_of (zip ''ABCDEFGHIJKLMNOPQRSTUVWXYZ'' ''abcdefghijklmnopqrstuvwxyz'') ch of
        None \<Rightarrow> ch
      | Some l \<Rightarrow> l)"

definition str_lower :: "string \<Rightarrow> string" where
  "str_lower s = map ascii_lower s"

definition startswith :: "string \<Rightarrow> string \<Rightarrow> bool" where
  "startswith s p = (take (length p) s = p)"

datatype loader = ONNXLoader | TensorRTLoader | PyTorchLoader

text \<open>
  What the world outside the cache does during one \<^verbatim>\<open>_load_model\<close> call: the object
  store's \<^verbatim>\<open>download_file\<close> (\<open>None\<close>: it returned) and the chosen loader's \<^verbatim>\<open>load_model\<close>
  on the local path.
\<close>

record 'm provider =
  download_file :: "string \<Rightarrow> string \<Rightarrow> error option"
  load_model :: "loader \<Rightarrow> string \<Rightarrow> config \<Rightarrow> error + 'm"

text \<open>
  \<^verbatim>\<open>_load_model\<close>: picks the loader from \<^verbatim>\<open>config.get("framework", "pytorch").lower()\<close>,
  downloads when the path starts with \<^verbatim>\<open>s3://\<close> or \<^verbatim>\<open>minio://\<close>, loads, and increments
  \<^verbatim>\<open>loads\<close> only after the loader has returned. A missing \<^verbatim>\<open>file_path\<close> makes
  \<^verbatim>\<open>model_path.startswith\<close> raise \<^verbatim>\<open>AttributeError\<close>. Every exception is logged and raised
  again. (The size estimate from the file is only logged.) \<open>run_loader\<close> is the part that
  does not touch the cache.
\<close>

definition run_loader :: "string \<Rightarrow> config \<Rightarrow> 'm provider \<Rightarrow> error + 'm" where
  "run_loader model_id cfg world =
     (let framework = str_lower (case map_of cfg ''framework'' of None \<Rightarrow> ''pytorch'' | Some f \<Rightarrow> f);
          ldr = (if framework = ''onnx'' then ONNXLoader
                 else if framework = ''tensorrt'' then TensorRTLoader
                 else PyTorchLoader)
      in case map_of cfg ''file_path'' of
           None \<Rightarrow> Inl AttributeError
         | Some model_path \<Rightarrow>
             (if startswith model_path ''s3://'' \<or> startswith model_path ''minio://'' then
                (let local_path = ''/tmp/models/'' @ model_id @ ''.'' @ framework
                 in case download_file world model_path local_path of
                      Some e \<Rightarrow> Inl e
                    | None \<Rightarrow> load_model world ldr local_path cfg)
              else load_model world ldr model_path cfg))"

definition load_model_into ::
  "'m ModelCache \<Rightarrow> string \<Rightarrow> config \<Rightarrow> 'm provider \<Rightarrow> (error + 'm) \<times> 'm ModelCache" where
  "load_model_into c model_id cfg world =
     (case run_loader model_id cfg world of
        Inl e \<Rightarrow> (Inl e, c)
      | Inr model \<Rightarrow> (Inr model, c\<lparr>stats := (stats c)\<lparr>loads := loads (stats c) + 1\<rparr>\<rparr>))"

subsection \<open>Lookup\<close>

text \<open>
  The locked first half of \<^verbatim>\<open>get_model\<close>: on a hit the key moves to the end of
  \<^verbatim>\<open>access_order\<close> and \<^verbatim>\<open>hits\<close> is incremented; on a miss \<^verbatim>\<open>misses\<close> is incremented and the
  lock is released before the load.
\<close>

datatype 'm lookup = Hit 'm | Miss

definition get_model_lookup :: "'m ModelCache \<Rightarrow> string \<Rightarrow> (error + 'm lookup) \<times> 'm ModelCache" where
  "get_model_lookup c model_id =
     (case map_of (models c) model_id of
        Some model \<Rightarrow>
          (case move_to_end (access_order c) model_id of
             Inl e \<Rightarrow> (Inl e, c)
           | Inr order' \<Rightarrow>
               (Inr (Hit model),
                c\<lparr>access_order := order', stats := (stats c)\<lparr>hits := hits (stats c) + 1\<rparr>\<rparr>))
      | None \<Rightarrow> (Inr Miss, c\<lparr>stats := (stats c)\<lparr>misses := misses (stats c) + 1\<rparr>\<rparr>))"

text \<open>
  \<^verbatim>\<open>get_model\<close> run without interruption: lookup, then on a miss load and install. \<open>None\<close>:
  the call does not return.
\<close>

definition get_model ::
  "'m ModelCache \<Rightarrow> string \<Rightarrow> config \<Rightarrow> 'm provider \<Rightarrow> nat option \<Rightarrow> real \<Rightarrow> real
     \<Rightarrow> ((error + 'm) \<times> 'm ModelCache) option" where
  "get_model c model_id cfg world rss t_access t_load =
     (case get_model_lookup c model_id of
        (Inl e, c1) \<Rightarrow> Some (Inl e, c1)
      | (Inr (Hit model), c1) \<Rightarrow> Some (Inr model, c1)
      | (Inr Miss, c1) \<Rightarrow>
          (case load_model_into c1 model_id cfg world of
             (Inl e, c2) \<Rightarrow> Some (Inl e, c2)
           | (Inr model, c2) \<Rightarrow>
               (case add_to_cache c2 model_id model cfg rss t_access t_load of
                  None \<Rightarrow> None
                | Some c3 \<Rightarrow> Some (Inr model, c3))))"

text \<open>\<^verbatim>\<open>invalidate\<close> and \<^verbatim>\<open>clear\<close>.\<close>

definition invalidate :: "'m ModelCache \<Rightarrow> string \<Rightarrow> 'm ModelCache" where
  "invalidate c model_id =
     (if map_of (models c) model_id \<noteq> None then
        c\<lparr>models := AList.delete model_id (models c),
          configs := AList.delete model_id (configs c),
          access_order := AList.delete model_id (access_order c),
          load_times := AList.delete model_id (load_times c),
          model_sizes := AList.delete model_id (model_sizes c)\<rparr>
      else c)"

definition clear :: "'m ModelCache \<Rightarrow> 'm ModelCache" where
  "clear c = c\<lparr>models := [], configs := [], access_order := [], load_times := [], model_sizes := []\<rparr>"

subsection \<open>Sequences of cache operations\<close>

text \<open>
  The steps that run atomically on the cache: the locked lookup of \<^verbatim>\<open>get_model\<close>, the load
  (outside the lock), the locked install \<^verbatim>\<open>_add_to_cache\<close>, \<^verbatim>\<open>invalidate\<close> and \<^verbatim>\<open>clear\<close>;
  \<open>Get\<close> is a whole \<^verbatim>\<open>get_model\<close> call that nothing interrupts. Callers on other threads
  can run between the lookup, the load and the install of one call, which is why these are
  separate steps.
\<close>

datatype 'm cache_op =
    Lookup string
  | Load string config "'m provider"
  | Install string 'm config "nat option" real real
  | Get string config "'m provider" "nat option" real real
  | Invalidate string
  | Clear

fun run_op :: "'m cache_op \<Rightarrow> 'm ModelCache \<Rightarrow> 'm ModelCache option" where
  "run_op (Lookup k) c = Some (snd (get_model_lookup c k))"
| "run_op (Load k cfg world) c = Some (snd (load_model_into c k cfg world))"
| "run_op (Install k m cfg rss t_access t_load) c = add_to_cache c k m cfg rss t_access t_load"
| "run_op (Get k cfg world rss t_access t_load) c =
     map_option snd (get_model c k cfg world rss t_access t_load)"
| "run_op (Invalidate k) c = Some (invalidate c k)"
| "run_op Clear c = Some (clear c)"

fun run_ops :: "'m cache_op list \<Rightarrow> 'm ModelCache \<Rightarrow> 'm ModelCache option" where
  "run_ops [] c = Some c"
| "run_ops (x # xs) c = (case run_op x c of None \<Rightarrow> None | Some c' \<Rightarrow> run_ops xs c')"

text \<open>
  The five dictionaries are kept in step: the keys of \<^verbatim>\<open>models\<close>, \<^verbatim>\<open>access_order\<close> and
  \<^verbatim>\<open>model_sizes\<close> are the same set, no key occurs twice, and no size is negative.
\<close>

definition cache_consistent :: "'m ModelCache \<Rightarrow> bool" where
  "cache_consistent c =
     (distinct (dict_keys (models c)) \<and> distinct (dict_keys (access_order c)) \<and>
      distinct (dict_keys (model_sizes c)) \<and>
      set (dict_keys (access_order c)) = set (dict_keys (models c)) \<and>
      set (dict_keys (model_sizes c)) = set (dict_keys (models c)) \<and>
      list_all (\<lambda>s. 0 \<le> s) (dict_values (model_sizes c)))"

subsection \<open>Invariants and sample data for the cache\<close>

text \<open>
  \<open>cache_inv mm mb\<close>: the dictionaries are in step, the limits are \<open>mm\<close> entries and \<open>mb\<close>
  megabytes, no more than \<open>mm\<close> models are cached, and the cached sizes sum to at most \<open>mb\<close>
  unless a single (oversized) entry is all the cache holds. \<open>same_limits c x\<close> relates the
  cache \<open>x\<close> during eviction to the cache \<open>c\<close> that eviction started from.
\<close>

definition cache_inv :: "int \<Rightarrow> int \<Rightarrow> 'm ModelCache \<Rightarrow> bool" where
  "cache_inv mm mb c =
     (cache_consistent c \<and> max_models c = mm \<and> max_memory_mb c = mb \<and>
      int (length (models c)) \<le> mm \<and>
      (total_memory c \<le> mb \<or> length (model_sizes c) \<le> 1))"

definition same_limits :: "'m ModelCache \<Rightarrow> 'm ModelCache \<Rightarrow> bool" where
  "same_limits c x = (cache_consistent x \<and> max_models x = max_models c \<and> max_memory_mb x = max_memory_mb c \<and>
      hits (stats x) = hits (stats c) \<and> misses (stats x) = misses (stats c) \<and> loads (stats x) = loads (stats c)
      \<and> total_memory x \<le> total_memory c)"

text \<open>
  Sample data: a provider for local files whose loaded model is the path itself, a
  configuration for it, a memory reading of 1000 MB (an estimated model size of 100 MB), a
  whole \<^verbatim>\<open>get_model\<close> call with them, a cache that holds the model \<open>m1\<close>, and a run on a cache
  whose memory limit is smaller than one model.
\<close>

definition file_provider :: "string provider" where
  "file_provider = \<lparr>download_file = (\<lambda>_ _. None), load_model = (\<lambda>_ path _. Inr path)\<rparr>"

definition pytorch_config :: "string \<Rightarrow> config" where
  "pytorch_config path = [(''framework'', ''pytorch''), (''file_path'', path)]"

definition rss_1000_mb :: "nat option" where
  "rss_1000_mb = Some (1000 * 1024 * 1024)"

definition get_op :: "string \<Rightarrow> real \<Rightarrow> string cache_op" where
  "get_op k t = Get k (pytorch_config (''/models/'' @ k @ ''.pt'')) file_provider rss_1000_mb t t"

definition cache_with_m1 :: "string ModelCache" where
  "cache_with_m1 =
     \<lparr>max_models = 5, max_memory_mb = 4096, cache_ttl = 3600,
      models = [(''m1'', ''/models/m1.pt'')],
      configs = [(''m1'', pytorch_config ''/models/m1.pt'')],
      access_order = [(''m1'', 1)], load_times = [(''m1'', 1)], model_sizes = [(''m1'', 100)],
      stats = \<lparr>hits = 0, misses = 1, evictions = 0, loads = 1\<rparr>\<rparr>"

definition small_budget_ops :: "string cache_op list" where
  "small_budget_ops =
     [get_op ''m1'' 1, get_op ''m2'' 2, Lookup ''m2'', get_op ''m3'' 3, Invalidate ''m2'',
      get_op ''m4'' 4]"

subsection \<open>Concurrent \<^verbatim>\<open>get_model\<close> calls\<close>

text \<open>
  One \<^verbatim>\<open>get_model\<close> call, seen as the steps between which callers on other threads can
  run: the locked lookup, the load outside the lock, the locked install. \<open>get_call\<close> is what
  a call brings and meets: its \<^verbatim>\<open>config\<close> argument, what the world does during its load,
  and the memory and clock readings of its install. Its \<open>phase\<close> is where it stands: about
  to look up, about to load, about to install the model that its own load returned, or
  returned (with a model or with the exception raised).
\<close>

record 'm get_call =
  call_config :: config
  call_world :: "'m provider"
  call_rss :: "nat option"
  call_t_access :: real
  call_t_load :: real

datatype 'm phase = Looking | Loading | Installing 'm | Returned "error + 'm"

text \<open>
  The next step of a call: the lookup returns the cached model on a hit, the load raises
  what the loader raises, and the install returns the model that the call loaded itself
  (\<^verbatim>\<open>return model\<close>), never the one it finds in the cache. \<open>None\<close>: the step does not return.
\<close>

definition call_step ::
  "string \<Rightarrow> 'm get_call \<Rightarrow> 'm phase \<Rightarrow> 'm ModelCache \<Rightarrow> ('m phase \<times> 'm ModelCache) option" where
  "call_step k a ph c =
     (case ph of
        Looking \<Rightarrow>
          (case get_model_lookup c k of
             (Inl e, c1) \<Rightarrow> Some (Returned (Inl e), c1)
           | (Inr (Hit m), c1) \<Rightarrow> Some (Returned (Inr m), c1)
           | (Inr Miss, c1) \<Rightarrow> Some (Loading, c1))
      | Loading \<Rightarrow>
          (case load_model_into c k (call_config a) (call_world a) of
             (Inl e, c2) \<Rightarrow> Some (Returned (Inl e), c2)
           | (Inr m, c2) \<Rightarrow> Some (Installing m, c2))
      | Installing m \<Rightarrow>
          (case add_to_cache c k m (call_config a) (call_rss a) (call_t_access a)
                  (call_t_load a) of
             None \<Rightarrow> None
           | Some c3 \<Rightarrow> Some (Returned (Inr m), c3))
      | Returned r \<Rightarrow> Some (Returned r, c))"

text \<open>
  Calls for the key \<open>k\<close> that run concurrently. A schedule is a list of caller indices: each
  entry lets that caller take its next step on the shared cache (an index that names no
  caller does nothing).
\<close>

fun run_schedule ::
  "string \<Rightarrow> 'm get_call list \<Rightarrow> nat list \<Rightarrow> 'm phase list \<times> 'm ModelCache
     \<Rightarrow> ('m phase list \<times> 'm ModelCache) option" where
  "run_schedule k calls [] s = Some s"
| "run_schedule k calls (i # sched) (phs, c) =
     (if i < length calls \<and> i < length phs then
        (case call_step k (calls ! i) (phs ! i) c of
           None \<Rightarrow> None
         | Some (ph', c') \<Rightarrow> run_schedule k calls sched (phs[i := ph'], c'))
      else run_schedule k calls sched (phs, c))"

text \<open>
  Calls for the key \<open>k\<close> made one after the other, each run to its end before the next
  starts, with what each returned or raised. Coroutines gathered on a single event loop run
  like this, because nothing in \<^verbatim>\<open>get_model\<close> suspends: the loaders are synchronous and
  \<^verbatim>\<open>download_file\<close> awaits nothing.
\<close>

fun get_all ::
  "string \<Rightarrow> 'm get_call list \<Rightarrow> 'm ModelCache \<Rightarrow> ((error + 'm) list \<times> 'm ModelCache) option" where
  "get_all k [] c = Some ([], c)"
| "get_all k (a # calls) c =
     (case get_model c k (call_config a) (call_world a) (call_rss a) (call_t_access a) (call_t_load a) of
        None \<Rightarrow> None
      | Some (r, c1) \<Rightarrow>
          (case get_all k calls c1 of
             None \<Rightarrow> None
           | Some (rs, c2) \<Rightarrow> Some (r # rs, c2)))"

text \<open>
  The phase of a call that has taken \<open>j\<close> steps, when its lookup missed and its load
  returned \<open>m\<close>.
\<close>

fun phase_after :: "'m \<Rightarrow> nat \<Rightarrow> 'm phase" where
  "phase_after m 0 = Looking"
| "phase_after m (Suc 0) = Loading"
| "phase_after m (Suc (Suc 0)) = Installing m"
| "phase_after m (Suc (Suc (Suc j))) = Returned (Inr m)"

text \<open>
  Sample data: every run of a loader constructs a new model object, so a model is written
  as the path it was loaded from together with the number of the object; \<open>object_provider n\<close>
  is the world during the load that constructs object \<open>n\<close>. \<open>two_calls\<close> are two
  \<^verbatim>\<open>get_model("m1", config)\<close> calls with the same configuration, whose loads construct the
  objects 1 and 2.
\<close>

definition object_provider :: "nat \<Rightarrow> (string \<times> nat) provider" where
  "object_provider obj = \<lparr>download_file = (\<lambda>_ _. None), load_model = (\<lambda>_ path _. Inr (path, obj))\<rparr>"

definition m1_call :: "nat \<Rightarrow> real \<Rightarrow> (string \<times> nat) get_call" where
  "m1_call obj t =
     \<lparr>call_config = pytorch_config ''/models/m1.pt'', call_world = object_provider obj,
      call_rss = rss_1000_mb, call_t_access = t, call_t_load = t\<rparr>"

definition two_calls :: "(string \<times> nat) get_call list" where
  "two_calls = [m1_call 1 1, m1_call 2 2]"

section \<open>Camera stream pipeline (\<^verbatim>\<open>services/camera/stream_manager.py\<close>)\<close>

subsection \<open>The frame queue\<close>

text \<open>
  \<^verbatim>\<open>asyncio.Queue(maxsize)\<close>: a FIFO that is full when \<^verbatim>\<open>maxsize > 0\<close> and it holds
  \<^verbatim>\<open>maxsize\<close> items (never full when \<^verbatim>\<open>maxsize \<le> 0\<close>). \<^verbatim>\<open>put_nowait\<close> raises \<^verbatim>\<open>QueueFull\<close> on a
  full queue, \<^verbatim>\<open>get_nowait\<close> raises \<^verbatim>\<open>QueueEmpty\<close> on an empty one and otherwise removes the
  oldest item.
\<close>

record 'a async_queue =
  maxsize :: int
  items :: "'a list"

definition qsize :: "'a async_queue \<Rightarrow> int" where
  "qsize q = int (length (items q))"

definition full :: "'a async_queue \<Rightarrow> bool" where
  "full q = (if maxsize q \<le> 0 then False else qsize q \<ge> maxsize q)"

definition put_nowait :: "'a async_queue \<Rightarrow> 'a \<Rightarrow> error + 'a async_queue" where
  "put_nowait q x = (if full q then Inl QueueFull else Inr (q\<lparr>items := items q @ [x]\<rparr>))"

definition get_nowait :: "'a async_queue \<Rightarrow> error + ('a \<times> 'a async_queue)" where
  "get_nowait q =
     (case items q of
        [] \<Rightarrow> Inl QueueEmpty
      | x # xs \<Rightarrow> Inr (x, q\<lparr>items := xs\<rparr>))"

text \<open>\<^verbatim>\<open>collections.deque(maxlen=n).append(x)\<close>: a full deque drops its oldest element.\<close>

definition deque_append :: "nat \<Rightarrow> 'a list \<Rightarrow> 'a \<Rightarrow> 'a list" where
  "deque_append maxlen d x = (let d' = d @ [x] in drop (length d' - maxlen) d')"

subsection \<open>\<^verbatim>\<open>StreamSession\<close>\<close>

text \<open>
  The fields of \<^verbatim>\<open>StreamSession\<close> that the capture and processing loops use. Frames are
  values of the type parameter \<open>'f\<close>, wall-clock times are reals (seconds). The source
  constructs the frame queue with \<^verbatim>\<open>maxsize=30\<close> and the frame buffer with the configured
  \<^verbatim>\<open>max_frame_buffer\<close> (default 60).
\<close>

record 'f StreamSession =
  is_active :: bool
  frame_queue :: "('f \<times> real) async_queue"
  frame_buffer :: "'f list"
  frame_buffer_maxlen :: nat
  last_frame_time :: "real option"
  frame_count :: int
  dropped_frames :: int
  fps_counter :: "real list"

definition StreamSession_init :: "nat \<Rightarrow> 'f StreamSession" where
  "StreamSession_init max_frame_buffer =
     \<lparr>is_active = False, frame_queue = \<lparr>maxsize = 30, items = []\<rparr>, frame_buffer = [],
      frame_buffer_maxlen = max_frame_buffer, last_frame_time = None, frame_count = 0,
      dropped_frames = 0, fps_counter = []\<rparr>"

text \<open>
  \<^verbatim>\<open>_read_frame_sync\<close>: \<open>None\<close> when the capture is closed, the read fails or raises;
  otherwise the frame, which is also appended to \<^verbatim>\<open>frame_buffer\<close>. \<open>cap_opened\<close> is
  \<^verbatim>\<open>self.cap and self.cap.isOpened()\<close>, \<open>rd\<close> the result of \<^verbatim>\<open>self.cap.read()\<close> (\<open>None\<close> when it
  raises).
\<close>

definition read_frame_sync ::
  "'f StreamSession \<Rightarrow> bool \<Rightarrow> (bool \<times> 'f) option \<Rightarrow> 'f option \<times> 'f StreamSession" where
  "read_frame_sync s cap_opened rd =
     (if \<not> cap_opened then (None, s)
      else case rd of
             None \<Rightarrow> (None, s)
           | Some (ret, frame) \<Rightarrow>
               if ret then
                 (Some frame,
                  s\<lparr>frame_buffer := deque_append (frame_buffer_maxlen s) (frame_buffer s) frame\<rparr>)
               else (None, s))"

text \<open>
  One pass through the body of \<^verbatim>\<open>_capture_loop\<close> with the frame that \<^verbatim>\<open>_read_frame_sync\<close>
  returned and the clock reading \<open>current_time\<close>:
  \<^verbatim>\<open>
  if frame is not None:
      self.frame_count += 1
      ...
      try:
          self.frame_queue.put_nowait((frame, current_time))
      except asyncio.QueueFull:
          try:
              self.frame_queue.get_nowait()
              self.frame_queue.put_nowait((frame, current_time))
              self.dropped_frames += 1
          except asyncio.QueueEmpty:
              pass
  \<close>
  A \<^verbatim>\<open>QueueFull\<close> from the second \<^verbatim>\<open>put_nowait\<close> would leave the inner handler and be
  logged by the handler of the loop; the frame taken out stays out and the counter is not
  incremented.
\<close>

definition capture_frame :: "'f StreamSession \<Rightarrow> 'f option \<Rightarrow> real \<Rightarrow> 'f StreamSession" where
  "capture_frame s frame_opt current_time =
     (case frame_opt of
        None \<Rightarrow> s
      | Some frame \<Rightarrow>
          (let s1 = s\<lparr>frame_count := frame_count s + 1,
                      fps_counter :=
                        (case last_frame_time s of
                           None \<Rightarrow> fps_counter s
                         | Some previous \<Rightarrow>
                             (let frame_interval = current_time - previous
                              in deque_append 30 (fps_counter s)
                                   (if frame_interval > 0 then 1 / frame_interval else 0))),
                      last_frame_time := Some current_time\<rparr>
           in case put_nowait (frame_queue s1) (frame, current_time) of
                Inr q \<Rightarrow> s1\<lparr>frame_queue := q\<rparr>
              | Inl _ \<Rightarrow>
                  (case get_nowait (frame_queue s1) of
                     Inl _ \<Rightarrow> s1
                   | Inr (_, q1) \<Rightarrow>
                       (case put_nowait q1 (frame, current_time) of
                          Inl _ \<Rightarrow> s1\<lparr>frame_queue := q1\<rparr>
                        | Inr q2 \<Rightarrow>
                            s1\<lparr>frame_queue := q2, dropped_frames := dropped_frames s1 + 1\<rparr>))))"

text \<open>
  The processor's side of the queue, one pass through \<^verbatim>\<open>_processing_loop\<close>: it takes the
  oldest queued frame (\<open>None\<close>: the queue stayed empty for the one-second timeout).
\<close>

definition take_frame :: "'f StreamSession \<Rightarrow> ('f \<times> real) option \<times> 'f StreamSession" where
  "take_frame s =
     (case get_nowait (frame_queue s) of
        Inl _ \<Rightarrow> (None, s)
      | Inr (item, q) \<Rightarrow> (Some item, s\<lparr>frame_queue := q\<rparr>))"

text \<open>The capture loop run over a list of frames with their clock readings.\<close>

fun capture_all :: "'f StreamSession \<Rightarrow> ('f \<times> real) list \<Rightarrow> 'f StreamSession" where
  "capture_all s [] = s"
| "capture_all s ((frame, t) # rest) = capture_all (capture_frame s (Some frame) t) rest"

definition session_with_capacity :: "int \<Rightarrow> string StreamSession" where
  "session_with_capacity cap = (StreamSession_init 60)\<lparr>frame_queue := \<lparr>maxsize = cap, items = []\<rparr>\<rparr>"

subsection \<open>Motion detection (\<^verbatim>\<open>StreamManager._process_frame\<close>)\<close>

text \<open>
  The camera document and its \<^verbatim>\<open>analytics_config\<close>, as far as \<^verbatim>\<open>_process_frame\<close> reads them
  (\<open>None\<close>: the key is missing).
\<close>

record analytics_config =
  motion_threshold :: "int option"
  detection_enabled :: bool
  analytics_model_id :: "string option"

record camera =
  camera_name :: string
  motion_detection_enabled :: bool
  analytics :: "analytics_config option"

text \<open>
  The OpenCV calls of \<^verbatim>\<open>_process_frame\<close>, taken as parameters: \<open>'f\<close> are colour frames,
  \<open>'g\<close> single-channel images, \<open>'c\<close> contours. \<^verbatim>\<open>cv2.contourArea\<close> returns a float, compared
  with the integer 500 exactly; the model keeps its exact value as a real.
\<close>

record ('f, 'g, 'c) cv2 =
  cvtColor_gray :: "'f \<Rightarrow> 'g"
  absdiff :: "'g \<Rightarrow> 'g \<Rightarrow> 'g"
  threshold_binary :: "'g \<Rightarrow> int \<Rightarrow> int \<Rightarrow> 'g"
  dilate_5x5 :: "'g \<Rightarrow> nat \<Rightarrow> 'g"
  countNonZero :: "'g \<Rightarrow> int"
  findContours_external :: "'g \<Rightarrow> 'c list"
  contourArea :: "'c \<Rightarrow> real"
  boundingRect :: "'c \<Rightarrow> int \<times> int \<times> int \<times> int"

record bounding_box =
  box_x :: int
  box_y :: int
  box_width :: int
  box_height :: int
  box_area :: int

record motion_metadata =
  motion_pixels :: int
  contour_count :: int
  bounding_boxes :: "bounding_box list"

record camera_event =
  event_id :: string
  event_camera_id :: string
  event_type :: string
  event_timestamp :: real
  event_metadata :: motion_metadata
  event_created_at :: real

text \<open>
  The document store: \<^verbatim>\<open>get_database()\<close> raises when it is not \<open>reachable\<close>,
  \<^verbatim>\<open>camera_events.insert_one\<close> raises when \<open>insert_fails\<close>; both exceptions are logged by
  \<^verbatim>\<open>_process_frame\<close> and nothing is inserted.
\<close>

record database =
  reachable :: bool
  insert_fails :: bool
  camera_events :: "camera_event list"

text \<open>Python's \<^verbatim>\<open>int(x)\<close> on a float truncates towards zero.\<close>

definition py_int :: "real \<Rightarrow> int" where
  "py_int r = (if 0 \<le> r then \<lfloor>r\<rfloor> else \<lceil>r\<rceil>)"

text \<open>
  \<^verbatim>\<open>
  gray = cv2.cvtColor(frame, cv2.COLOR_BGR2GRAY)
  frame_diff = cv2.absdiff(prev_frame, gray)
  _, thresh = cv2.threshold(frame_diff, 30, 255, cv2.THRESH_BINARY)
  thresh = cv2.dilate(thresh, np.ones((5, 5), np.uint8), iterations=2)
  \<close>
\<close>

definition motion_mask :: "('f, 'g, 'c) cv2 \<Rightarrow> 'g \<Rightarrow> 'f \<Rightarrow> 'g" where
  "motion_mask cv prev_frame frame =
     (let gray = cvtColor_gray cv frame;
          frame_diff = absdiff cv prev_frame gray;
          thresh = threshold_binary cv frame_diff 30 255
      in dilate_5x5 cv thresh 2)"

text \<open>\<^verbatim>\<open>camera.get("analytics_config", {}).get("motion_threshold", 5000)\<close>\<close>

definition motion_threshold_of :: "camera \<Rightarrow> int" where
  "motion_threshold_of cam =
     (case analytics cam of
        None \<Rightarrow> 5000
      | Some cfg \<Rightarrow> (case motion_threshold cfg of None \<Rightarrow> 5000 | Some t \<Rightarrow> t))"

text \<open>\<^verbatim>\<open>[c for c in contours if cv2.contourArea(c) > 500]\<close>\<close>

definition significant_contours :: "('f, 'g, 'c) cv2 \<Rightarrow> 'c list \<Rightarrow> 'c list" where
  "significant_contours cv contours = filter (\<lambda>c. contourArea cv c > 500) contours"

text \<open>One entry of \<^verbatim>\<open>bounding_boxes\<close>.\<close>

definition bounding_box_of :: "('f, 'g, 'c) cv2 \<Rightarrow> 'c \<Rightarrow> bounding_box" where
  "bounding_box_of cv c =
     (case boundingRect cv c of
        (x, y, w, h) \<Rightarrow>
          \<lparr>box_x = x, box_y = y, box_width = w, box_height = h,
           box_area = py_int (contourArea cv c)\<rparr>)"

text \<open>
  \<^verbatim>\<open>_process_frame\<close>: \<open>uuid\<close> is the \<^verbatim>\<open>uuid4()\<close> drawn for the event, \<open>now1\<close> and \<open>now2\<close> the
  two \<^verbatim>\<open>datetime.utcnow()\<close> readings. The detection branch at the end of the source only
  contains \<^verbatim>\<open>pass\<close>.
\<close>

definition process_frame ::
  "('f, 'g, 'c) cv2 \<Rightarrow> camera \<Rightarrow> string \<Rightarrow> 'f \<Rightarrow> 'g option \<Rightarrow> string \<Rightarrow> real \<Rightarrow> real
     \<Rightarrow> database \<Rightarrow> database" where
  "process_frame cv cam cam_id frame prev_frame uuid now1 now2 db =
     (if \<not> motion_detection_enabled cam then db
      else case prev_frame of
             None \<Rightarrow> db
           | Some prev \<Rightarrow>
               (let thresh = motion_mask cv prev frame;
                    motion_pixels' = countNonZero cv thresh;
                    motion_threshold' = motion_threshold_of cam
                in if motion_pixels' > motion_threshold' then
                     (if \<not> reachable db then db
                      else
                        (let contours = findContours_external cv thresh;
                             significant = significant_contours cv contours;
                             event =
                               \<lparr>event_id = uuid, event_camera_id = cam_id,
                                event_type = ''motion_detected'', event_timestamp = now1,
                                event_metadata =
                                  \<lparr>motion_pixels = motion_pixels',
                                   contour_count = int (length significant),
                                   bounding_boxes = map (bounding_box_of cv) (take 10 significant)\<rparr>,
                                event_created_at = now2\<rparr>
                         in if insert_fails db then db
                            else db\<lparr>camera_events := camera_events db @ [event]\<rparr>))
                   else db))"

text \<open>
  Sample data: single-channel images as lists of pixel values, and a mask in which three
  contours are found, of areas 500, 500.5 and 812.
\<close>

definition pixel_cv2 :: "(nat list, nat list, real \<times> (int \<times> int \<times> int \<times> int)) cv2" where
  "pixel_cv2 =
     \<lparr>cvtColor_gray = (\<lambda>f. f),
      absdiff = (\<lambda>a b. map (\<lambda>(p, q). if p \<le> q then q - p else p - q) (zip a b)),
      threshold_binary = (\<lambda>g t mx. map (\<lambda>v. if int v > t then nat mx else 0) g),
      dilate_5x5 = (\<lambda>g n. g),
      countNonZero = (\<lambda>g. int (length (filter (\<lambda>v. v \<noteq> 0) g))),
      findContours_external = (\<lambda>g. [(500, (0, 0, 25, 20)), (500.5, (10, 10, 30, 20)), (812, (40, 5, 29, 28))]),
      contourArea = fst,
      boundingRect = snd\<rparr>"

definition sample_camera :: camera where
  "sample_camera =
     \<lparr>camera_name = ''dock'', motion_detection_enabled = True,
      analytics = Some \<lparr>motion_threshold = Some 2, detection_enabled = False, analytics_model_id = None\<rparr>\<rparr>"

definition empty_store :: database where
  "empty_store = \<lparr>reachable = True, insert_fails = False, camera_events = []\<rparr>"

section \<open>Inference queue (\<^verbatim>\<open>services/inference/inference_queue.py\<close>)\<close>

subsection \<open>Jobs and queue entries\<close>

datatype InferenceStatus = PENDING | PROCESSING | COMPLETED | FAILED

text \<open>
  The dataclass \<^verbatim>\<open>InferenceJob\<close>. Times are microseconds since the epoch
  (\<^verbatim>\<open>datetime.utcnow()\<close> has microsecond resolution, and \<^verbatim>\<open>.timestamp()\<close> maps present-day
  readings to doubles without collapsing or reordering them); a callback is known by its
  name. The dataclass defines \<^verbatim>\<open>__eq__\<close> on all fields and no ordering.
\<close>

record InferenceJob =
  job_id :: string
  model_id :: string
  image_data :: "nat list"
  inference_type :: string
  parameters :: "(string \<times> string) list"
  callback :: "string option"
  created_at :: int
  started_at :: "int option"
  completed_at :: "int option"
  status :: InferenceStatus
  result :: "string option"
  job_error :: "string option"
  priority :: int

text \<open>
  A queue entry is the tuple \<^verbatim>\<open>(-priority, timestamp, job)\<close>. Python compares two tuples at
  the first position where they differ; when the first two positions agree the jobs are
  compared, and two jobs that are not equal have no \<^verbatim>\<open><\<close>: \<^verbatim>\<open>TypeError\<close>.
\<close>

type_synonym entry = "int \<times> int \<times> InferenceJob"

definition entry_lt :: "entry \<Rightarrow> entry \<Rightarrow> error + bool" where
  "entry_lt a b =
     (case a of (pa, ta, ja) \<Rightarrow> case b of (pb, tb, jb) \<Rightarrow>
        if pa \<noteq> pb then Inr (pa < pb)
        else if ta \<noteq> tb then Inr (ta < tb)
        else if ja = jb then Inr False
        else Inl TypeError)"

subsection \<open>\<^verbatim>\<open>heapq\<close>, on which \<^verbatim>\<open>asyncio.PriorityQueue\<close> is built\<close>

text \<open>
  \<^verbatim>\<open>PriorityQueue._put\<close> is \<^verbatim>\<open>heappush\<close> and \<^verbatim>\<open>PriorityQueue._get\<close> is \<^verbatim>\<open>heappop\<close> on a Python
  list. Each function returns the exception it raised, if any, together with the list as it
  has left it (the list is mutated in place, also when a comparison raises half-way).
  \<^verbatim>\<open>
  def _siftdown(heap, startpos, pos):
      newitem = heap[pos]
      while pos > startpos:
          parentpos = (pos - 1) >> 1
          parent = heap[parentpos]
          if newitem < parent:
              heap[pos] = parent
              pos = parentpos
              continue
          break
      heap[pos] = newitem
  \<close>
\<close>

function siftdown_loop ::
  "entry list \<Rightarrow> nat \<Rightarrow> nat \<Rightarrow> entry \<Rightarrow> error option \<times> entry list \<times> nat" where
  "siftdown_loop heap startpos pos newitem =
     (if pos > startpos then
        (let parentpos = (pos - 1) div 2;
             parent = heap ! parentpos
         in case entry_lt newitem parent of
              Inl e \<Rightarrow> (Some e, heap, pos)
            | Inr lt \<Rightarrow>
                if lt then siftdown_loop (heap[pos := parent]) startpos parentpos newitem
                else (None, heap, pos))
      else (None, heap, pos))"
  by pat_completeness auto
termination
  by (relation "measure (\<lambda>(heap, startpos, pos, newitem). pos)") auto

declare siftdown_loop.simps [simp del]

definition siftdown :: "entry list \<Rightarrow> nat \<Rightarrow> nat \<Rightarrow> error option \<times> entry list" where
  "siftdown heap startpos pos =
     (if pos < length heap then
        (let newitem = heap ! pos
         in case siftdown_loop heap startpos pos newitem of
              (Some e, heap', pos') \<Rightarrow> (Some e, heap')
            | (None, heap', pos') \<Rightarrow> (None, heap'[pos' := newitem]))
      else (Some IndexError, heap))"

text \<open>
  \<^verbatim>\<open>
  def _siftup(heap, pos):
      endpos = len(heap)
      startpos = pos
      newitem = heap[pos]
      childpos = 2*pos + 1
      while childpos < endpos:
          rightpos = childpos + 1
          if rightpos < endpos and not heap[childpos] < heap[rightpos]:
              childpos = rightpos
          heap[pos] = heap[childpos]
          pos = childpos
          childpos = 2*pos + 1
      heap[pos] = newitem
      _siftdown(heap, startpos, pos)
  \<close>
\<close>

function siftup_loop :: "entry list \<Rightarrow> nat \<Rightarrow> nat \<Rightarrow> error option \<times> entry list \<times> nat" where
  "siftup_loop heap endpos pos =
     (let childpos = 2 * pos + 1
      in if childpos < endpos then
           (let rightpos = childpos + 1
            in case (if rightpos < endpos then entry_lt (heap ! childpos) (heap ! rightpos)
                     else Inr True) of
                 Inl e \<Rightarrow> (Some e, heap, pos)
               | Inr lt \<Rightarrow>
                   (let childpos' = (if rightpos < endpos \<and> \<not> lt then rightpos else childpos)
                    in siftup_loop (heap[pos := heap ! childpos']) endpos childpos'))
         else (None, heap, pos))"
  by pat_completeness auto
termination
  by (relation "measure (\<lambda>(heap, endpos, pos). endpos - pos)") (auto split: if_splits)

declare siftup_loop.simps [simp del]

definition siftup :: "entry list \<Rightarrow> nat \<Rightarrow> error option \<times> entry list" where
  "siftup heap pos =
     (if pos < length heap then
        (let endpos = length heap;
             startpos = pos;
             newitem = heap ! pos
         in case siftup_loop heap endpos pos of
              (Some e, heap', pos') \<Rightarrow> (Some e, heap')
            | (None, heap', pos') \<Rightarrow> siftdown (heap'[pos' := newitem]) startpos pos')
      else (Some IndexError, heap))"

text \<open>
  \<^verbatim>\<open>heappush\<close>: append, then \<^verbatim>\<open>_siftdown(heap, 0, len(heap)-1)\<close>. \<^verbatim>\<open>heappop\<close>: pop the last
  element; if the list is now empty return it, otherwise put it at the root, \<^verbatim>\<open>_siftup\<close>
  from there and return the former root.
\<close>

definition heappush :: "entry list \<Rightarrow> entry \<Rightarrow> error option \<times> entry list" where
  "heappush heap item = siftdown (heap @ [item]) 0 (length heap)"

definition heappop :: "entry list \<Rightarrow> (error + entry) \<times> entry list" where
  "heappop heap =
     (if heap = [] then (Inl IndexError, heap)
      else
        (let lastelt = last heap;
             heap1 = butlast heap
         in if heap1 \<noteq> [] then
              (let returnitem = heap1 ! 0;
                   heap2 = heap1[0 := lastelt]
               in case siftup heap2 0 of
                    (Some e, heap3) \<Rightarrow> (Inl e, heap3)
                  | (None, heap3) \<Rightarrow> (Inr returnitem, heap3))
            else (Inr lastelt, heap1)))"

subsection \<open>\<^verbatim>\<open>InferenceQueue\<close>\<close>

record queue_stats =
  total_jobs :: int
  completed_jobs :: int
  failed_jobs :: int
  queue_size :: int
  active_workers :: int

text \<open>
  \<^verbatim>\<open>queue\<close> is the list inside the \<^verbatim>\<open>asyncio.PriorityQueue\<close>, \<^verbatim>\<open>jobs\<close> the registry,
  \<^verbatim>\<open>workers\<close> the worker tasks (by index), \<open>running\<close> the flag \<^verbatim>\<open>_running\<close>.
\<close>

record InferenceQueue =
  max_workers :: int
  max_queue_size :: int
  queue :: "entry list"
  jobs :: "(string \<times> InferenceJob) list"
  workers :: "nat list"
  queue_stats :: queue_stats
  running :: bool

text \<open>
  \<^verbatim>\<open>__init__\<close>: \<^verbatim>\<open>max_workers or settings.INFERENCE_MAX_WORKERS\<close> (\<open>None\<close> and 0 give the
  setting), \<^verbatim>\<open>max_queue_size\<close> defaults to 1000.
\<close>

definition InferenceQueue_init :: "int option \<Rightarrow> int \<Rightarrow> int \<Rightarrow> InferenceQueue" where
  "InferenceQueue_init max_workers' setting max_queue_size' =
     \<lparr>max_workers = (case max_workers' of None \<Rightarrow> setting | Some n \<Rightarrow> if n = 0 then setting else n),
      max_queue_size = max_queue_size',
      queue = [], jobs = [], workers = [],
      queue_stats = \<lparr>total_jobs = 0, completed_jobs = 0, failed_jobs = 0, queue_size = 0,
                     active_workers = 0\<rparr>,
      running = False\<rparr>"

text \<open>\<^verbatim>\<open>start\<close>: nothing when already running; otherwise one worker task per worker.\<close>

definition start :: "InferenceQueue \<Rightarrow> InferenceQueue" where
  "start q =
     (if running q then q
      else q\<lparr>running := True, workers := workers q @ [0 ..< nat (max_workers q)]\<rparr>)"

text \<open>
  \<^verbatim>\<open>stop\<close>: nothing when not running; otherwise the flag is cleared, the worker tasks are
  cancelled and awaited, the thread pool is shut down and the worker list is cleared.
  Neither the registry nor the queue is touched.
\<close>

definition stop :: "InferenceQueue \<Rightarrow> InferenceQueue" where
  "stop q = (if \<not> running q then q else q\<lparr>running := False, workers := []\<rparr>)"

text \<open>
  \<^verbatim>\<open>submit_job\<close>: \<open>uuid\<close> is the \<^verbatim>\<open>uuid4()\<close> drawn for the job, \<open>now_created\<close> and
  \<open>now_queued\<close> the two clock readings. The result is what the call returns or raises, and the
  state it leaves. The job is registered before it is put on the queue; the queue is not full
  at that point, so \<^verbatim>\<open>put\<close> does not wait.
\<close>

definition submit_job ::
  "InferenceQueue \<Rightarrow> string \<Rightarrow> nat list \<Rightarrow> string \<Rightarrow> (string \<times> string) list option \<Rightarrow> int
     \<Rightarrow> string option \<Rightarrow> string \<Rightarrow> int \<Rightarrow> int \<Rightarrow> (error + string) \<times> InferenceQueue" where
  "submit_job q model_id' image_data' inference_type' parameters' priority' callback' uuid
       now_created now_queued =
     (if \<not> running q then (Inl NotRunning, q)
      else if int (length (queue q)) \<ge> max_queue_size q then (Inl QueueIsFull, q)
      else
        (let job = \<lparr>job_id = uuid, model_id = model_id', image_data = image_data',
                     inference_type = inference_type',
                     parameters = (case parameters' of None \<Rightarrow> [] | Some ps \<Rightarrow> ps),
                     callback = callback', created_at = now_created, started_at = None,
                     completed_at = None, status = PENDING, result = None, job_error = None,
                     priority = priority'\<rparr>;
             q1 = q\<lparr>jobs := AList.update uuid job (jobs q),
                    queue_stats := (queue_stats q)\<lparr>total_jobs := total_jobs (queue_stats q) + 1\<rparr>\<rparr>
         in case heappush (queue q1) (- priority', now_queued, job) of
              (Some e, heap) \<Rightarrow> (Inl e, q1\<lparr>queue := heap\<rparr>)
            | (None, heap) \<Rightarrow> (Inr uuid, q1\<lparr>queue := heap\<rparr>)))"

text \<open>
  The head of one pass through the loop of \<^verbatim>\<open>_worker\<close>: nothing when the queue is not
  running or stays empty for the timeout; otherwise the entry that \<^verbatim>\<open>queue.get()\<close> returns,
  whose job becomes \<^verbatim>\<open>PROCESSING\<close>. The job object is the one in the registry (as long as
  job ids are not reused), so the registry shows the change. An exception of
  \<^verbatim>\<open>queue.get()\<close> is logged by the loop.
\<close>

definition worker_take :: "InferenceQueue \<Rightarrow> int \<Rightarrow> entry option \<times> InferenceQueue" where
  "worker_take q now =
     (if \<not> running q then (None, q)
      else if queue q = [] then (None, q)
      else case heappop (queue q) of
             (Inl e, heap) \<Rightarrow> (None, q\<lparr>queue := heap\<rparr>)
           | (Inr (priority', timestamp, job), heap) \<Rightarrow>
               (let job' = job\<lparr>status := PROCESSING, started_at := Some now\<rparr>
                in (Some (priority', timestamp, job'),
                    q\<lparr>queue := heap, jobs := AList.update (job_id job) job' (jobs q)\<rparr>)))"

text \<open>
  The rest of the pass: the outcome of \<^verbatim>\<open>_process_inference_job\<close> (a result, or the text
  of the exception) is recorded on the job and in the statistics.
\<close>

definition worker_finish :: "InferenceQueue \<Rightarrow> InferenceJob \<Rightarrow> string + string \<Rightarrow> int \<Rightarrow> InferenceQueue" where
  "worker_finish q job outcome now =
     (case outcome of
        Inr res \<Rightarrow>
          q\<lparr>jobs := AList.update (job_id job)
                      (job\<lparr>result := Some res, status := COMPLETED, completed_at := Some now\<rparr>) (jobs q),
            queue_stats := (queue_stats q)\<lparr>completed_jobs := completed_jobs (queue_stats q) + 1\<rparr>\<rparr>
      | Inl err \<Rightarrow>
          q\<lparr>jobs := AList.update (job_id job)
                      (job\<lparr>job_error := Some err, status := FAILED, completed_at := Some now\<rparr>) (jobs q),
            queue_stats := (queue_stats q)\<lparr>failed_jobs := failed_jobs (queue_stats q) + 1\<rparr>\<rparr>)"

text \<open>The entries that a worker takes in \<open>n\<close> consecutive passes, in the order it takes them.\<close>

fun dispatch :: "nat \<Rightarrow> InferenceQueue \<Rightarrow> int \<Rightarrow> entry list" where
  "dispatch 0 q now = []"
| "dispatch (Suc n) q now =
     (case worker_take q now of
        (None, q') \<Rightarrow> dispatch n q' now
      | (Some e, q') \<Rightarrow> e # dispatch n q' now)"

text \<open>The queue after those \<open>n\<close> passes.\<close>

fun dispatch_state :: "nat \<Rightarrow> InferenceQueue \<Rightarrow> int \<Rightarrow> InferenceQueue" where
  "dispatch_state 0 q now = q"
| "dispatch_state (Suc n) q now = dispatch_state n (snd (worker_take q now)) now"

text \<open>
  \<open>precedes a b\<close>: the entry \<open>a\<close> has the higher priority, or the same priority and the
  earlier timestamp.
\<close>

definition precedes :: "entry \<Rightarrow> entry \<Rightarrow> bool" where
  "precedes a b =
     (case a of (pa, ta, ja) \<Rightarrow> case b of (pb, tb, jb) \<Rightarrow>
        - pa > - pb \<or> (pa = pb \<and> ta < tb))"

text \<open>Submitting a list of jobs \<open>(name, priority, time)\<close> one after the other.\<close>

fun submit_all :: "InferenceQueue \<Rightarrow> (string \<times> int \<times> int) list \<Rightarrow> InferenceQueue" where
  "submit_all q [] = q"
| "submit_all q ((name, p, t) # rest) =
     submit_all (snd (submit_job q ''yolo'' [] ''detect'' None p None name t t)) rest"

subsection \<open>The heap invariant\<close>

text \<open>
  The key that decides the order of two entries with different priority or timestamp, in
  the lexicographic order of pairs.
\<close>

definition entry_key :: "entry \<Rightarrow> int \<times> int" where
  "entry_key e = (fst e, fst (snd e))"

text \<open>
  \<open>is_heap\<close>: no entry is smaller than its parent (the parent of position \<open>i\<close> is position
  \<open>(i - 1) div 2\<close>). \<open>hole_ok h p\<close>: the same for every pair of positions that does not involve
  \<open>p\<close>, and the children of \<open>p\<close> are not smaller than the parent of \<open>p\<close>: the state of the
  list while a sift moves the hole \<open>p\<close>. \<open>above x h p\<close>: \<open>x\<close> is not larger than the children
  of \<open>p\<close>.
\<close>

definition is_heap :: "entry list \<Rightarrow> bool" where
  "is_heap h = (\<forall>i. 0 < i \<and> i < length h \<longrightarrow> entry_key (h ! ((i - 1) div 2)) \<le> entry_key (h ! i))"

definition hole_ok :: "entry list \<Rightarrow> nat \<Rightarrow> bool" where
  "hole_ok h p =
     ((\<forall>i. 0 < i \<and> i < length h \<and> i \<noteq> p \<and> (i - 1) div 2 \<noteq> p \<longrightarrow>
          entry_key (h ! ((i - 1) div 2)) \<le> entry_key (h ! i)) \<and>
      (0 < p \<longrightarrow> (\<forall>c. 0 < c \<and> c < length h \<and> (c - 1) div 2 = p \<longrightarrow>
          entry_key (h ! ((p - 1) div 2)) \<le> entry_key (h ! c))))"

definition above :: "entry \<Rightarrow> entry list \<Rightarrow> nat \<Rightarrow> bool" where
  "above x h p = (\<forall>c. 0 < c \<and> c < length h \<and> (c - 1) div 2 = p \<longrightarrow> entry_key x \<le> entry_key (h ! c))"





text \<open>The entry as the worker holds it after taking it: its job is \<^verbatim>\<open>PROCESSING\<close>.\<close>

definition mark_processing :: "int \<Rightarrow> entry \<Rightarrow> entry" where
  "mark_processing now e =
     (case e of (p, t, job) \<Rightarrow> (p, t, job\<lparr>status := PROCESSING, started_at := Some now\<rparr>))"



text \<open>
  Sample data: a started queue with one worker and room for ten jobs, to which J1
  (priority 1), J2 (priority 1), J3 (priority 5) and J4 (priority 3) have been submitted in
  that order before the worker took any; and a started queue with room for three jobs that
  holds two.
\<close>

definition four_jobs :: InferenceQueue where
  "four_jobs = submit_all (start (InferenceQueue_init (Some 1) 4 10))
      [(''J1'', 1, 100), (''J2'', 1, 200), (''J3'', 5, 300), (''J4'', 3, 400)]"


text \<open>
  A started queue to which A (priority 5), B (priority 1), C (priority 1) and D (priority
  1) have been submitted in that order, C and D at the same clock reading.
\<close>

definition tied_jobs :: InferenceQueue where
  "tied_jobs = submit_all (start (InferenceQueue_init (Some 1) 4 10))
      [(''A'', 5, 100), (''B'', 1, 200), (''C'', 1, 300), (''D'', 1, 300)]"

text \<open>
  What identifies a queued entry and a submitted request \<open>(name, priority, time)\<close> for the
  comparison of dispatch order with submission: the key and the job id.
\<close>

definition entry_tag :: "entry \<Rightarrow> (int \<times> int) \<times> string" where
  "entry_tag e = (entry_key e, job_id (snd (snd e)))"

definition request_tag :: "string \<times> int \<times> int \<Rightarrow> (int \<times> int) \<times> string" where
  "request_tag r = (case r of (name, p, t) \<Rightarrow> ((- p, t), name))"

section \<open>Properties of the model cache\<close>

lemma sum_delete_le:
  "list_all (\<lambda>s. 0 \<le> s) (map snd d) \<Longrightarrow> sum_list (map snd (AList.delete k d)) \<le> sum_list (map snd (d :: ('k \<times> int) list))"
  by (induction d) (auto simp: AList.delete_eq)

lemma nonneg_delete:
  "list_all (\<lambda>s. 0 \<le> s) (map snd d) \<Longrightarrow> list_all (\<lambda>s. (0::int) \<le> s) (map snd (AList.delete k d))"
  by (induction d) (auto simp: AList.delete_eq)

lemma sum_update_le:
  "list_all (\<lambda>s. 0 \<le> s) (map snd d) \<Longrightarrow> sum_list (map snd (AList.update k v d)) \<le> sum_list (map snd (d :: ('k \<times> int) list)) + v"
  by (induction d) auto

lemma nonneg_update:
  "list_all (\<lambda>s. 0 \<le> s) (map snd d) \<Longrightarrow> 0 \<le> v \<Longrightarrow> list_all (\<lambda>s. (0::int) \<le> s) (map snd (AList.update k v d))"
  by (induction d) auto

lemma length_update_le: "length (AList.update k v d) \<le> Suc (length d)"
  by (induction d) auto

lemma keys_empty_iff: "set (map fst d) = set (map fst e) \<Longrightarrow> d = [] \<longleftrightarrow> e = []"
  by (cases d; cases e) auto

lemma estimate_ge_50: "50 \<le> estimate_model_memory rss"
  by (cases rss) (simp_all add: estimate_model_memory_def Let_def)

lemma delete_all_consistent:
  "cache_consistent c \<Longrightarrow>
   cache_consistent (c\<lparr>models := AList.delete k (models c), access_order := AList.delete k (access_order c),
       model_sizes := AList.delete k (model_sizes c)\<rparr>)"
  unfolding cache_consistent_def dict_keys_def dict_values_def
  by (simp add: AList.delete_keys distinct_removeAll nonneg_delete)

lemma evict_consistent:
  "cache_consistent c \<Longrightarrow> cache_consistent (evict_lru_model c)"
proof (cases "access_order c")
  case Nil
  then show "cache_consistent c \<Longrightarrow> cache_consistent (evict_lru_model c)" by (simp add: evict_lru_model_def)
next
  case (Cons p rest)
  obtain k t where p: "p = (k, t)" by (cases p)
  assume "cache_consistent c"
  from delete_all_consistent[OF this, of k] show "cache_consistent (evict_lru_model c)"
    by (simp add: evict_lru_model_def Cons p cache_consistent_def)
qed

lemma evict_total_le:
  "cache_consistent c \<Longrightarrow> total_memory (evict_lru_model c) \<le> total_memory c"
  by (simp add: cache_consistent_def evict_lru_model_def total_memory_def dict_values_def
        sum_delete_le split: list.splits)

lemma evict_fields [simp]:
  "max_models (evict_lru_model c) = max_models c"
  "max_memory_mb (evict_lru_model c) = max_memory_mb c"
  "hits (stats (evict_lru_model c)) = hits (stats c)"
  "misses (stats (evict_lru_model c)) = misses (stats c)"
  "loads (stats (evict_lru_model c)) = loads (stats c)"
  by (auto simp: evict_lru_model_def split: list.splits)

lemma length_delete_present:
  "distinct (map fst d) \<Longrightarrow> k \<in> set (map fst d) \<Longrightarrow> Suc (length (AList.delete k d)) = length d"
proof (induction d)
  case Nil
  then show ?case by simp
next
  case (Cons p d)
  show ?case
  proof (cases "fst p = k")
    case True
    with Cons.prems have "k \<notin> fst ` set d" by auto
    then have "AList.delete k d = d" by simp
    with True show ?thesis by (cases p) (simp add: AList.delete_eq)
  next
    case False
    with Cons show ?thesis by (cases p) (auto simp: AList.delete_eq)
  qed
qed

lemma evict_length:
  assumes "cache_consistent c" "models c \<noteq> []"
  shows "Suc (length (models (evict_lru_model c))) = length (models c)"
    and "Suc (length (access_order (evict_lru_model c))) = length (access_order c)"
proof -
  from assms have ne: "access_order c \<noteq> []"
    using keys_empty_iff[of "access_order c" "models c"] by (auto simp: cache_consistent_def dict_keys_def)
  then obtain k t rest where ao: "access_order c = (k, t) # rest" by (cases "access_order c") auto
  with assms have "k \<in> set (map fst (models c))" "distinct (map fst (models c))"
                  "distinct (map fst (access_order c))"
    by (auto simp: cache_consistent_def dict_keys_def)
  then show "Suc (length (models (evict_lru_model c))) = length (models c)"
       "Suc (length (access_order (evict_lru_model c))) = length (access_order c)"
    using ao length_delete_present[of "models c" k] length_delete_present[of "access_order c" k]
    by (auto simp: evict_lru_model_def)
qed

lemma evict_by_count_post_aux:
  assumes step: "\<And>x. Q x \<Longrightarrow> Q (evict_lru_model x)"
    and run: "evict_by_count c = Some c'"
  shows "Q c \<longrightarrow> Q c' \<and> int (length (models c')) < max_models c'"
proof (rule evict_by_count.raw_induct[where P = "\<lambda>x y. Q x \<longrightarrow> Q y \<and> int (length (models y)) < max_models y", OF _ run])
  fix f :: "'a ModelCache \<Rightarrow> 'a ModelCache option" and x y
  assume IH: "\<And>x y. f x = Some y \<Longrightarrow> Q x \<longrightarrow> Q y \<and> int (length (models y)) < max_models y"
    and body: "(if max_models x \<le> int (length (models x)) then f (evict_lru_model x) else Some x) = Some y"
  show "Q x \<longrightarrow> Q y \<and> int (length (models y)) < max_models y"
  proof (cases "max_models x \<le> int (length (models x))")
    case True
    with body have "f (evict_lru_model x) = Some y" by simp
    from IH[OF this] step[of x] show ?thesis by simp
  next
    case False
    with body have "y = x" by simp
    with False show ?thesis by simp
  qed
qed

lemma evict_by_count_post:
  assumes "evict_by_count c = Some c'" "P c" "\<And>x. P x \<Longrightarrow> P (evict_lru_model x)"
  shows "P c'" "int (length (models c')) < max_models c'"
  using evict_by_count_post_aux[of P c c', OF assms(3) assms(1)] assms(2) by simp_all

lemma evict_by_memory_post_aux:
  assumes step: "\<And>x. Q x \<Longrightarrow> Q (evict_lru_model x)"
    and run: "evict_by_memory cur new c = Some c'"
  shows "Q c \<and> total_memory c \<le> cur \<longrightarrow>
     Q c' \<and> (total_memory c' + new \<le> max_memory_mb c' \<or> models c' = [])"
proof (rule evict_by_memory.raw_induct[where P = "\<lambda>a b x y. Q x \<and> total_memory x \<le> a \<longrightarrow>
     Q y \<and> (total_memory y + b \<le> max_memory_mb y \<or> models y = [])", OF _ run])
  fix f :: "int \<Rightarrow> int \<Rightarrow> 'a ModelCache \<Rightarrow> 'a ModelCache option" and a b x y
  assume IH: "\<And>a b x y. f a b x = Some y \<Longrightarrow> Q x \<and> total_memory x \<le> a \<longrightarrow>
     Q y \<and> (total_memory y + b \<le> max_memory_mb y \<or> models y = [])"
    and body: "(if max_memory_mb x < a + b
      then if models x = [] then Some x
           else let c' = evict_lru_model x in f (total_memory c') b c'
      else Some x) = Some y"
  show "Q x \<and> total_memory x \<le> a \<longrightarrow>
     Q y \<and> (total_memory y + b \<le> max_memory_mb y \<or> models y = [])"
  proof (cases "max_memory_mb x < a + b")
    case False
    with body have eq: "y = x" by simp
    from False show ?thesis unfolding eq by auto
  next
    case True
    note big = this
    show ?thesis
    proof (cases "models x = []")
      case True
      with big body show ?thesis by auto
    next
      case False
      with big body
      have "f (total_memory (evict_lru_model x)) b (evict_lru_model x) = Some y"
        by (simp add: Let_def)
      from IH[OF this] step[of x] show ?thesis by simp
    qed
  qed
qed

lemma evict_by_memory_post:
  assumes "evict_by_memory cur new c = Some c'" "P c" "total_memory c \<le> cur"
      "\<And>x. P x \<Longrightarrow> P (evict_lru_model x)"
  shows "P c'" "total_memory c' + new \<le> max_memory_mb c' \<or> models c' = []"
  using evict_by_memory_post_aux[of P cur new c c', OF assms(4) assms(1)] assms(2,3) by simp_all

lemma evict_by_count_terminates:
  assumes "cache_consistent c" "1 \<le> max_models c"
  shows "\<exists>c'. evict_by_count c = Some c'"
  using assms
proof (induction "length (models c)" arbitrary: c rule: less_induct)
  case less
  show ?case
  proof (cases "max_models c \<le> int (length (models c))")
    case False
    then show ?thesis by (subst evict_by_count.simps) simp
  next
    case True
    with less.prems have ne: "models c \<noteq> []" by auto
    from evict_length(1)[OF less.prems(1) ne]
    have "length (models (evict_lru_model c)) < length (models c)" by simp
    from less.hyps[OF this evict_consistent[OF less.prems(1)]] less.prems(2)
    obtain c' where "evict_by_count (evict_lru_model c) = Some c'" by auto
    with True show ?thesis by (subst evict_by_count.simps) simp
  qed
qed

lemma evict_by_memory_terminates:
  assumes "cache_consistent c"
  shows "\<exists>c'. evict_by_memory cur new c = Some c'"
  using assms
proof (induction "length (models c)" arbitrary: c cur rule: less_induct)
  case less
  show ?case
  proof (cases "cur + new > max_memory_mb c \<and> models c \<noteq> []")
    case False
    then show ?thesis by (subst evict_by_memory.simps) auto
  next
    case True
    from evict_length(1)[OF less.prems(1)] True
    have "length (models (evict_lru_model c)) < length (models c)" by simp
    from less.hyps[OF this evict_consistent[OF less.prems(1)]]
    obtain c' where "evict_by_memory (total_memory (evict_lru_model c)) new (evict_lru_model c) = Some c'" by blast
    with True show ?thesis by (subst evict_by_memory.simps) (simp add: Let_def)
  qed
qed

lemma update_consistent:
  "cache_consistent c \<Longrightarrow> 0 \<le> s \<Longrightarrow>
   cache_consistent (c\<lparr>models := AList.update k m (models c), access_order := AList.update k t (access_order c),
       model_sizes := AList.update k s (model_sizes c)\<rparr>)"
  unfolding cache_consistent_def dict_keys_def dict_values_def
  by (simp add: AList.dom_update AList.distinct_update nonneg_update)

lemma init_inv: "0 \<le> mm \<Longrightarrow> cache_inv mm mb (ModelCache_init mm mb ttl)"
  by (simp add: cache_inv_def cache_consistent_def ModelCache_init_def total_memory_def dict_keys_def dict_values_def)

lemma sizes_empty: "cache_consistent c \<Longrightarrow> models c = [] \<Longrightarrow> model_sizes c = []"
  using keys_empty_iff[of "model_sizes c" "models c"] by (simp add: cache_consistent_def dict_keys_def)

lemma same_limits_evict: "same_limits c x \<Longrightarrow> same_limits c (evict_lru_model x)"
  using evict_total_le[of x] by (simp add: same_limits_def evict_consistent)

lemma evict_length_le: "length (models (evict_lru_model x)) \<le> length (models x)"
  by (simp add: evict_lru_model_def AList.length_delete_le split: list.splits)

lemma same_limits_evict_len:
  "same_limits c x \<and> length (models x) \<le> n \<Longrightarrow>
   same_limits c (evict_lru_model x) \<and> length (models (evict_lru_model x)) \<le> n"
  using same_limits_evict[of c x] evict_length_le[of x] by simp

lemma ensure_post:
  assumes "ensure_cache_capacity new c = Some c1" "cache_consistent c"
  shows "same_limits c c1" "int (length (models c1)) < max_models c"
        "total_memory c1 + new \<le> max_memory_mb c \<or> models c1 = []"
proof -
  from assms(1) obtain c0 where c0: "evict_by_count c = Some c0"
     and c1: "evict_by_memory (total_memory c) new c0 = Some c1"
    by (auto simp: ensure_cache_capacity_def Let_def split: option.splits)
  have start: "same_limits c c" using assms(2) by (simp add: same_limits_def)
  from evict_by_count_post[OF c0, of "same_limits c", OF start same_limits_evict]
  have s0: "same_limits c c0" and l0: "int (length (models c0)) < max_models c0" by simp_all
  from s0 have t0: "total_memory c0 \<le> total_memory c" by (simp add: same_limits_def)
  have p0: "same_limits c c0 \<and> length (models c0) \<le> length (models c0)" using s0 by simp
  from evict_by_memory_post[OF c1, of "\<lambda>x. same_limits c x \<and> length (models x) \<le> length (models c0)",
        OF p0 t0 same_limits_evict_len]
  have s1: "same_limits c c1 \<and> length (models c1) \<le> length (models c0)"
    and m: "total_memory c1 + new \<le> max_memory_mb c1 \<or> models c1 = []"
    by simp_all
  from s1 show "same_limits c c1" by simp
  from s1 l0 s0 show "int (length (models c1)) < max_models c" by (simp add: same_limits_def)
  from m s1 show "total_memory c1 + new \<le> max_memory_mb c \<or> models c1 = []"
    by (simp add: same_limits_def)
qed

lemma ensure_terminates:
  assumes "cache_consistent c" "1 \<le> max_models c"
  shows "\<exists>c1. ensure_cache_capacity new c = Some c1"
proof -
  from evict_by_count_terminates[OF assms] obtain c0 where c0: "evict_by_count c = Some c0" by blast
  from evict_by_count_post(1)[OF c0, of cache_consistent, OF assms(1) evict_consistent]
  have "cache_consistent c0" .
  from evict_by_memory_terminates[OF this, of "total_memory c" new] c0
  show ?thesis by (simp add: ensure_cache_capacity_def Let_def)
qed

lemma add_to_cache_inv:
  assumes "add_to_cache c k m cfg rss t1 t2 = Some c'" "cache_inv mm mb c"
  shows "cache_inv mm mb c'"
proof -
  let ?s = "estimate_model_memory rss"
  from assms(1) obtain c1 where e: "ensure_cache_capacity ?s c = Some c1"
    and c': "c' = c1\<lparr>models := AList.update k m (models c1),
                      configs := AList.update k cfg (configs c1),
                      access_order := AList.update k t1 (access_order c1),
                      load_times := AList.update k t2 (load_times c1),
                      model_sizes := AList.update k ?s (model_sizes c1)\<rparr>"
    by (auto simp: add_to_cache_def Let_def split: option.splits)
  from assms(2) have cons: "cache_consistent c" and mm: "max_models c = mm" and mb: "max_memory_mb c = mb"
    by (simp_all add: cache_inv_def)
  note post = ensure_post[OF e cons]
  from post(1) have cons1: "cache_consistent c1" and lim: "max_models c1 = mm" "max_memory_mb c1 = mb"
    using mm mb by (simp_all add: same_limits_def)
  have s0: "0 \<le> ?s" using estimate_ge_50[of rss] by simp
  from update_consistent[OF cons1 s0, where k = k and m = m and t = t1]
  have consc': "cache_consistent c'" by (simp add: c' cache_consistent_def)
  have len: "int (length (models c')) \<le> mm"
    using post(2) length_update_le[of k m "models c1"] mm by (simp add: c')
  have mem: "total_memory c' \<le> mb \<or> length (model_sizes c') \<le> 1"
  proof (cases "models c1 = []")
    case True
    with sizes_empty[OF cons1] show ?thesis by (simp add: c')
  next
    case False
    with post(3) mb have "total_memory c1 + ?s \<le> mb" by simp
    moreover from cons1 have "total_memory c' \<le> total_memory c1 + ?s"
      by (simp add: c' total_memory_def dict_values_def sum_update_le cache_consistent_def)
    ultimately show ?thesis by simp
  qed
  from consc' len mem lim show ?thesis by (simp add: cache_inv_def c')
qed

lemma add_to_cache_terminates:
  assumes "cache_consistent c" "1 \<le> max_models c"
  shows "\<exists>c'. add_to_cache c k m cfg rss t1 t2 = Some c'"
  using ensure_terminates[OF assms, of "estimate_model_memory rss"]
  by (auto simp: add_to_cache_def Let_def)

lemma add_to_cache_stats:
  assumes "add_to_cache c k m cfg rss t1 t2 = Some c'" "cache_consistent c"
  shows "hits (stats c') = hits (stats c)" "misses (stats c') = misses (stats c)"
        "loads (stats c') = loads (stats c)" "map_of (models c') k = Some m"
proof -
  let ?s = "estimate_model_memory rss"
  from assms(1) obtain c1 where e: "ensure_cache_capacity ?s c = Some c1"
    and c': "c' = c1\<lparr>models := AList.update k m (models c1),
                      configs := AList.update k cfg (configs c1),
                      access_order := AList.update k t1 (access_order c1),
                      load_times := AList.update k t2 (load_times c1),
                      model_sizes := AList.update k ?s (model_sizes c1)\<rparr>"
    by (auto simp: add_to_cache_def Let_def split: option.splits)
  from ensure_post(1)[OF e assms(2)]
  show "hits (stats c') = hits (stats c)" "misses (stats c') = misses (stats c)"
        "loads (stats c') = loads (stats c)" "map_of (models c') k = Some m"
    by (simp_all add: c' same_limits_def AList.update_conv')
qed

lemma keys_delete: "fst ` set (AList.delete k d) = fst ` set d - {k}"
  using AList.delete_keys[of k d] by (metis set_map set_removeAll)

lemma move_to_end_keys:
  assumes "move_to_end d k = Inr d'" "distinct (map fst d)"
  shows "distinct (map fst d') \<and> fst ` set d' = fst ` set d"
proof -
  from assms(1) obtain v where v: "map_of d k = Some v" and d': "d' = AList.delete k d @ [(k, v)]"
    by (auto simp: move_to_end_def split: option.splits)
  from v have "k \<in> fst ` set d" by (metis domI dom_map_of_conv_image_fst)
  with assms(2) AList.distinct_delete[OF assms(2), of k] AList.delete_notin_dom[of k d]
  show ?thesis
    by (simp add: d' keys_delete insert_absorb)
qed

lemma lookup_inv:
  assumes "cache_inv mm mb c"
  shows "cache_inv mm mb (snd (get_model_lookup c k))"
proof (cases "map_of (models c) k")
  case None
  with assms show ?thesis
    by (simp add: get_model_lookup_def cache_inv_def cache_consistent_def total_memory_def)
next
  case (Some m)
  show ?thesis
  proof (cases "move_to_end (access_order c) k")
    case (Inl e)
    with Some assms show ?thesis by (simp add: get_model_lookup_def)
  next
    case (Inr d')
    from assms have "distinct (map fst (access_order c))"
      by (simp add: cache_inv_def cache_consistent_def dict_keys_def)
    from move_to_end_keys[OF Inr this] Some Inr assms show ?thesis
      by (simp add: get_model_lookup_def cache_inv_def cache_consistent_def total_memory_def dict_keys_def)
  qed
qed

lemma load_inv: "cache_inv mm mb c \<Longrightarrow> cache_inv mm mb (snd (load_model_into c k cfg world))"
  by (simp add: load_model_into_def cache_inv_def cache_consistent_def total_memory_def split: sum.splits)

lemma invalidate_inv:
  assumes "cache_inv mm mb c"
  shows "cache_inv mm mb (invalidate c k)"
proof (cases "map_of (models c) k = None")
  case True
  with assms show ?thesis by (simp add: invalidate_def)
next
  case False
  from assms have cons: "cache_consistent c" by (simp add: cache_inv_def)
  from delete_all_consistent[OF cons, of k]
  have 1: "cache_consistent (invalidate c k)" using False by (simp add: invalidate_def cache_consistent_def)
  have 2: "length (models (invalidate c k)) \<le> length (models c)"
    using False by (simp add: invalidate_def AList.length_delete_le)
  have 3: "total_memory (invalidate c k) \<le> total_memory c"
    using False cons by (simp add: invalidate_def total_memory_def dict_values_def sum_delete_le cache_consistent_def)
  have 4: "length (model_sizes (invalidate c k)) \<le> length (model_sizes c)"
    using False by (simp add: invalidate_def AList.length_delete_le)
  have 5: "max_models (invalidate c k) = max_models c" "max_memory_mb (invalidate c k) = max_memory_mb c"
    by (simp_all add: invalidate_def)
  from assms 1 2 3 4 5 show ?thesis unfolding cache_inv_def by linarith
qed

lemma clear_inv: "cache_inv mm mb c \<Longrightarrow> 0 \<le> mm \<Longrightarrow> cache_inv mm mb (clear c)"
  by (simp add: clear_def cache_inv_def cache_consistent_def total_memory_def dict_keys_def dict_values_def)

lemma get_model_inv:
  assumes "get_model c k cfg world rss t1 t2 = Some (r, c')" "cache_inv mm mb c"
  shows "cache_inv mm mb c'"
proof -
  obtain l c1 where l: "get_model_lookup c k = (l, c1)" by (cases "get_model_lookup c k")
  from lookup_inv[OF assms(2), of k] l have i1: "cache_inv mm mb c1" by simp
  show ?thesis
  proof (cases l)
    case (Inl e)
    with assms(1) l i1 show ?thesis by (simp add: get_model_def)
  next
    case (Inr h)
    show ?thesis
    proof (cases h)
      case (Hit m)
      with Inr assms(1) l i1 show ?thesis by (simp add: get_model_def)
    next
      case Miss
      obtain r2 c2 where ld: "load_model_into c1 k cfg world = (r2, c2)"
        by (cases "load_model_into c1 k cfg world")
      from load_inv[OF i1, of k cfg world] ld have i2: "cache_inv mm mb c2" by simp
      show ?thesis
      proof (cases r2)
        case (Inl e)
        with Miss Inr assms(1) l ld i2 show ?thesis by (simp add: get_model_def)
      next
        case (Inr m)
        with Miss \<open>l = Inr h\<close> assms(1) l ld
        have "add_to_cache c2 k m cfg rss t1 t2 = Some c'"
          by (simp add: get_model_def split: option.splits)
        from add_to_cache_inv[OF this i2] show ?thesis .
      qed
    qed
  qed
qed

lemma run_op_inv:
  assumes "run_op x c = Some c'" "cache_inv mm mb c" "0 \<le> mm"
  shows "cache_inv mm mb c'"
proof (cases x)
  case (Lookup k)
  with assms lookup_inv[of mm mb c k] show ?thesis by auto
next
  case (Load k cfg world)
  with assms load_inv[of mm mb c k cfg world] show ?thesis by auto
next
  case (Install k m cfg rss t1 t2)
  with assms add_to_cache_inv[of c k m cfg rss t1 t2 c' mm mb] show ?thesis by auto
next
  case (Get k cfg world rss t1 t2)
  with assms(1) obtain r where "get_model c k cfg world rss t1 t2 = Some (r, c')" by auto
  from get_model_inv[OF this assms(2)] show ?thesis .
next
  case (Invalidate k)
  with assms invalidate_inv[of mm mb c k] show ?thesis by auto
next
  case Clear
  with assms clear_inv[of mm mb c] show ?thesis by auto
qed

lemma run_ops_inv:
  "run_ops xs c = Some c' \<Longrightarrow> cache_inv mm mb c \<Longrightarrow> 0 \<le> mm \<Longrightarrow> cache_inv mm mb c'"
proof (induction xs arbitrary: c)
  case Nil
  then show ?case by simp
next
  case (Cons x xs)
  from Cons.prems(1) obtain c1 where 1: "run_op x c = Some c1" and 2: "run_ops xs c1 = Some c'"
    by (auto split: option.splits)
  from Cons.IH[OF 2 run_op_inv[OF 1 Cons.prems(2,3)] Cons.prems(3)] show ?case .
qed

lemma single_entry_total:
  "length (d :: (string \<times> int) list) \<le> 1 \<Longrightarrow> d = [] \<or> (\<exists>k. d = [(k, sum_list (map snd d))])"
  by (cases d) auto

text \<open>
  C3. After any sequence of cache operations (lookups, loads, installs, whole
  \<^verbatim>\<open>get_model\<close> calls, \<^verbatim>\<open>invalidate\<close>, \<^verbatim>\<open>clear\<close>, in any order) that starts from the freshly
  constructed cache with non-negative limits, the number of cached models is at most
  \<^verbatim>\<open>max_models\<close>, and the cached sizes sum to at most \<^verbatim>\<open>max_memory_mb\<close> plus the size of one
  cached entry: the sum exceeds \<^verbatim>\<open>max_memory_mb\<close> only while that entry is the only one.
\<close>

theorem cache_bounds_after_ops:
  assumes "run_ops ops (ModelCache_init mm mb ttl) = Some c" "0 \<le> mm" "0 \<le> mb"
  shows "int (length (models c)) \<le> mm \<and>
         (total_memory c \<le> mb \<or> (\<exists>k. model_sizes c = [(k, total_memory c)])) \<and>
         (\<exists>s \<in> set (0 # dict_values (model_sizes c)). total_memory c \<le> mb + s)"
proof -
  from run_ops_inv[OF assms(1) init_inv[OF assms(2)] assms(2)]
  have inv: "cache_inv mm mb c" .
  then have len: "int (length (models c)) \<le> mm"
    and mem: "total_memory c \<le> mb \<or> length (model_sizes c) \<le> 1"
    by (simp_all add: cache_inv_def)
  have d: "total_memory c \<le> mb \<or> (\<exists>k. model_sizes c = [(k, total_memory c)])"
  proof (cases "total_memory c \<le> mb")
    case True then show ?thesis by simp
  next
    case False
    with mem have "length (model_sizes c) \<le> 1" by simp
    from single_entry_total[OF this] False assms(3) show ?thesis
      by (auto simp: total_memory_def dict_values_def)
  qed
  have "\<exists>s \<in> set (0 # dict_values (model_sizes c)). total_memory c \<le> mb + s"
  proof (cases "total_memory c \<le> mb")
    case True then show ?thesis by simp
  next
    case False
    with d obtain k where k: "model_sizes c = [(k, total_memory c)]" by blast
    then have "total_memory c \<in> set (dict_values (model_sizes c))"
      by (metis dict_values_def list.set_intros(1) list.simps(9) snd_conv)
    with assms(3) show ?thesis by (intro bexI[of _ "total_memory c"]) simp_all
  qed
  with len d show ?thesis by simp
qed

lemmas cache_eval = get_op_def run_ops.simps run_op.simps get_model_def get_model_lookup_def
  load_model_into_def run_loader_def add_to_cache_def ensure_cache_capacity_def
  evict_by_count.simps evict_by_memory.simps evict_lru_model_def estimate_model_memory_def
  ModelCache_init_def pytorch_config_def file_provider_def rss_1000_mb_def move_to_end_def
  total_memory_def dict_keys_def dict_values_def str_lower_def ascii_lower_def startswith_def
  invalidate_def clear_def Let_def


text \<open>
  C9. For a key present in a cache whose dictionaries are in step and whose limit is at
  least one model: after \<^verbatim>\<open>invalidate(k)\<close> the key is absent, and a following
  \<^verbatim>\<open>get_model(k)\<close> whose load succeeds takes the miss path and returns the freshly loaded
  model, with \<^verbatim>\<open>misses\<close> and \<^verbatim>\<open>loads\<close> each one higher and \<^verbatim>\<open>hits\<close> unchanged.
\<close>

theorem invalidate_then_get_loads_again:
  assumes "cache_consistent c" "1 \<le> max_models c" "map_of (models c) k \<noteq> None"
    "run_loader k cfg world = Inr m"
  shows "map_of (models (invalidate c k)) k = None \<and>
         (\<exists>c'. get_model (invalidate c k) k cfg world rss t1 t2 = Some (Inr m, c') \<and>
               misses (stats c') = misses (stats c) + 1 \<and>
               loads (stats c') = loads (stats c) + 1 \<and>
               hits (stats c') = hits (stats c) \<and>
               map_of (models c') k = Some m)"
proof -
  let ?i = "invalidate c k"
  have absent: "map_of (models ?i) k = None"
    using assms(3) AList.delete_notin_dom[of k "models c"]
    by (simp add: invalidate_def map_of_eq_None_iff)
  from delete_all_consistent[OF assms(1), of k] assms(3)
  have cons: "cache_consistent ?i" by (simp add: invalidate_def cache_consistent_def)
  let ?c1 = "?i\<lparr>stats := (stats ?i)\<lparr>misses := misses (stats ?i) + 1\<rparr>\<rparr>"
  let ?c2 = "?c1\<lparr>stats := (stats ?c1)\<lparr>loads := loads (stats ?c1) + 1\<rparr>\<rparr>"
  have lk: "get_model_lookup ?i k = (Inr Miss, ?c1)" using absent by (simp add: get_model_lookup_def)
  have ld: "load_model_into ?c1 k cfg world = (Inr m, ?c2)" using assms(4) by (simp add: load_model_into_def)
  have cons2: "cache_consistent ?c2" using cons by (simp add: cache_consistent_def)
  have mm2: "1 \<le> max_models ?c2" using assms(2) by (simp add: invalidate_def)
  from add_to_cache_terminates[OF cons2 mm2, of k m cfg rss t1 t2]
  obtain c' where add: "add_to_cache ?c2 k m cfg rss t1 t2 = Some c'" by blast
  have g: "get_model ?i k cfg world rss t1 t2 = Some (Inr m, c')"
    using add by (simp add: get_model_def lk ld)
  have st: "misses (stats ?c2) = misses (stats c) + 1" "loads (stats ?c2) = loads (stats c) + 1"
       "hits (stats ?c2) = hits (stats c)"
    by (simp_all add: invalidate_def)
  from add_to_cache_stats[OF add cons2] st g absent show ?thesis by simp
qed

text \<open>C9 on a cache that holds \<open>m1\<close>.\<close>

theorem invalidate_then_get_witness:
  "cache_consistent cache_with_m1 \<and> 1 \<le> max_models cache_with_m1 \<and>
   map_of (models cache_with_m1) ''m1'' \<noteq> None \<and>
   run_loader ''m1'' (pytorch_config ''/models/m1.pt'') file_provider = Inr ''/models/m1.pt'' \<and>
   map_of (models (invalidate cache_with_m1 ''m1'')) ''m1'' = None \<and>
   (\<exists>c'. get_model (invalidate cache_with_m1 ''m1'') ''m1'' (pytorch_config ''/models/m1.pt'')
            file_provider rss_1000_mb 2 2 = Some (Inr ''/models/m1.pt'', c') \<and>
         misses (stats c') = 2 \<and> loads (stats c') = 2 \<and> hits (stats c') = 0 \<and>
         map_of (models c') ''m1'' = Some ''/models/m1.pt'')"
proof -
  have 1: "cache_consistent cache_with_m1"
    by (simp add: cache_with_m1_def cache_consistent_def dict_keys_def dict_values_def)
  have 2: "1 \<le> max_models cache_with_m1" by (simp add: cache_with_m1_def)
  have 3: "map_of (models cache_with_m1) ''m1'' \<noteq> None" by (simp add: cache_with_m1_def)
  have 4: "run_loader ''m1'' (pytorch_config ''/models/m1.pt'') file_provider = Inr ''/models/m1.pt''"
    by (simp add: cache_eval)
  have 5: "misses (stats cache_with_m1) = 1" "loads (stats cache_with_m1) = 1" "hits (stats cache_with_m1) = 0"
    by (simp_all add: cache_with_m1_def)
  from invalidate_then_get_loads_again[OF 1 2 3 4, of rss_1000_mb 2 2] 1 2 3 4 5
  show ?thesis by simp
qed

text \<open>
  Concurrent \<^verbatim>\<open>get_model\<close> calls. The three steps of one call, run with nothing in between,
  are \<^verbatim>\<open>get_model\<close>.
\<close>

lemma get_model_as_steps:
  "run_schedule k [a] [0, 0, 0] ([Looking], c) =
     map_option (\<lambda>(r, c'). ([Returned r], c'))
       (get_model c k (call_config a) (call_world a) (call_rss a) (call_t_access a) (call_t_load a))"
  by (simp add: call_step_def get_model_def split: prod.splits sum.splits lookup.splits option.splits)

lemma add_to_cache_consistent:
  assumes "add_to_cache c k m cfg rss t1 t2 = Some c'" "cache_consistent c"
  shows "cache_consistent c'" "max_models c' = max_models c"
proof -
  let ?s = "estimate_model_memory rss"
  from assms(1) obtain c1 where e: "ensure_cache_capacity ?s c = Some c1"
    and c': "c' = c1\<lparr>models := AList.update k m (models c1),
                      configs := AList.update k cfg (configs c1),
                      access_order := AList.update k t1 (access_order c1),
                      load_times := AList.update k t2 (load_times c1),
                      model_sizes := AList.update k ?s (model_sizes c1)\<rparr>"
    by (auto simp: add_to_cache_def Let_def split: option.splits)
  from ensure_post(1)[OF e assms(2)]
  have cons1: "cache_consistent c1" and lim: "max_models c1 = max_models c"
    by (simp_all add: same_limits_def)
  have s0: "0 \<le> ?s" using estimate_ge_50[of rss] by simp
  from update_consistent[OF cons1 s0, where k = k and m = m and t = t1]
  show "cache_consistent c'" by (simp add: c' cache_consistent_def)
  from lim show "max_models c' = max_models c" by (simp add: c')
qed

lemma get_model_hit:
  assumes "cache_consistent c" "map_of (models c) k = Some m"
  shows "\<exists>c'. get_model c k cfg world rss t1 t2 = Some (Inr m, c') \<and>
           hits (stats c') = hits (stats c) + 1 \<and> misses (stats c') = misses (stats c) \<and>
           loads (stats c') = loads (stats c) \<and> models c' = models c"
proof -
  from assms(2) have "k \<in> fst ` set (models c)" by (metis domI dom_map_of_conv_image_fst)
  with assms(1) have "k \<in> fst ` set (access_order c)"
    by (simp add: cache_consistent_def dict_keys_def)
  then obtain t where "map_of (access_order c) k = Some t"
    by (metis domD dom_map_of_conv_image_fst)
  with assms(2) show ?thesis
    by (simp add: get_model_def get_model_lookup_def move_to_end_def)
qed

lemma call_step_progress:
  assumes "cache_consistent c" "1 \<le> max_models c"
    "run_loader k (call_config a) (call_world a) = Inr m"
    "j = 0 \<Longrightarrow> map_of (models c) k = None"
  shows "\<exists>c'. call_step k a (phase_after m j) c = Some (phase_after m (Suc j), c') \<and>
           cache_consistent c' \<and> max_models c' = max_models c \<and>
           hits (stats c') = hits (stats c) \<and>
           misses (stats c') = misses (stats c) + of_bool (j = 0) \<and>
           loads (stats c') = loads (stats c) + of_bool (j = 1) \<and>
           (j \<le> 1 \<longrightarrow> models c' = models c) \<and>
           (j = 2 \<longrightarrow> map_of (models c') k = Some m)"
proof -
  consider "j = 0" | "j = 1" | "j = 2" | i where "j = Suc (Suc (Suc i))"
    by (metis One_nat_def Suc_1 not0_implies_Suc)
  then show ?thesis
  proof cases
    case 1
    with assms show ?thesis
      by (simp add: call_step_def get_model_lookup_def cache_consistent_def)
  next
    case 2
    with assms show ?thesis
      by (simp add: call_step_def load_model_into_def cache_consistent_def)
  next
    case 3
    from add_to_cache_terminates[OF assms(1,2), of k m "call_config a" "call_rss a"
        "call_t_access a" "call_t_load a"]
    obtain c' where add: "add_to_cache c k m (call_config a) (call_rss a) (call_t_access a)
        (call_t_load a) = Some c'" by blast
    from add_to_cache_stats[OF add assms(1)] add_to_cache_consistent[OF add assms(1)] add 3
    show ?thesis
      by (simp add: call_step_def numeral_2_eq_2)
  next
    case 4
    with assms show ?thesis
      by (simp add: call_step_def)
  qed
qed

lemma run_schedule_append:
  "run_schedule k calls (xs @ ys) s =
     (case run_schedule k calls xs s of None \<Rightarrow> None | Some s' \<Rightarrow> run_schedule k calls ys s')"
proof (induction xs arbitrary: s)
  case Nil
  show ?case by simp
next
  case (Cons x xs)
  obtain phs c where s: "s = (phs, c)" by (cases s)
  show ?case unfolding s using Cons.IH
    by (simp split: option.splits prod.splits)
qed

lemma sum_fun_upd:
  fixes h :: "nat \<Rightarrow> int" and n :: nat
  assumes "x < n"
  shows "(\<Sum>i<n. h ((f(x := v)) i)) = (\<Sum>i<n. h (f i)) + h v - h (f x)"
proof -
  have fin: "finite {..<n}" by simp
  from assms have x: "x \<in> {..<n}" by simp
  have "(\<Sum>i<n. h ((f(x := v)) i)) = h v + (\<Sum>i\<in>{..<n} - {x}. h ((f(x := v)) i))"
    using sum.remove[OF fin x, of "\<lambda>i. h ((f(x := v)) i)"] by simp
  moreover have "(\<Sum>i\<in>{..<n} - {x}. h ((f(x := v)) i)) = (\<Sum>i\<in>{..<n} - {x}. h (f i))"
    by (rule sum.cong) simp_all
  moreover have "(\<Sum>i<n. h (f i)) = h (f x) + (\<Sum>i\<in>{..<n} - {x}. h (f i))"
    using sum.remove[OF fin x, of "\<lambda>i. h (f i)"] by simp
  ultimately show ?thesis by simp
qed

lemma sum_of_bool_all:
  "(\<And>i. i < n \<Longrightarrow> P i) \<Longrightarrow> (\<Sum>i<n. of_bool (P i)) = int n"
  by simp

text \<open>
  Calls whose lookups missed, followed along a schedule: \<open>f i\<close> is the number of steps that
  call \<open>i\<close> has taken. The schedule either ends before any install and starts with the key
  absent, or starts after every lookup.
\<close>

lemma run_schedule_progress:
  assumes len: "length calls = n" "length ms = n"
    and ld: "\<And>i. i < n \<Longrightarrow> run_loader k (call_config (calls ! i)) (call_world (calls ! i)) = Inr (ms ! i)"
  shows "set sched \<subseteq> {..<n} \<Longrightarrow> length phs = n \<Longrightarrow>
     (\<And>i. i < n \<Longrightarrow> phs ! i = phase_after (ms ! i) (f i)) \<Longrightarrow>
     cache_consistent c \<Longrightarrow> 1 \<le> max_models c \<Longrightarrow>
     (map_of (models c) k = None \<and> (\<forall>i<n. f i + count_list sched i \<le> 2)) \<or> (\<forall>i<n. 1 \<le> f i) \<Longrightarrow>
     \<exists>phs' c'. run_schedule k calls sched (phs, c) = Some (phs', c') \<and> length phs' = n \<and>
       (\<forall>i<n. phs' ! i = phase_after (ms ! i) (f i + count_list sched i)) \<and>
       cache_consistent c' \<and> max_models c' = max_models c \<and>
       hits (stats c') = hits (stats c) \<and>
       misses (stats c') = misses (stats c)
          + (\<Sum>i<n. of_bool (1 \<le> f i + count_list sched i)) - (\<Sum>i<n. of_bool (1 \<le> f i)) \<and>
       loads (stats c') = loads (stats c)
          + (\<Sum>i<n. of_bool (2 \<le> f i + count_list sched i)) - (\<Sum>i<n. of_bool (2 \<le> f i)) \<and>
       (map_of (models c) k = None \<and> (\<forall>i<n. f i + count_list sched i \<le> 2)
          \<longrightarrow> map_of (models c') k = None) \<and>
       (sched \<noteq> [] \<and> f (last sched) + count_list sched (last sched) = 3
          \<longrightarrow> map_of (models c') k = Some (ms ! last sched))"
proof (induction sched arbitrary: phs f c)
  case Nil
  then show ?case by simp
next
  case (Cons x xs)
  from Cons.prems(1) have x: "x < n" and xs: "set xs \<subseteq> {..<n}" by simp_all
  have absent: "f x = 0 \<Longrightarrow> map_of (models c) k = None"
    using Cons.prems(6) x by auto
  from call_step_progress[OF Cons.prems(4,5) ld[OF x], of "f x", OF absent]
  obtain c1 where st: "call_step k (calls ! x) (phase_after (ms ! x) (f x)) c
        = Some (phase_after (ms ! x) (Suc (f x)), c1)"
    and c1: "cache_consistent c1" "max_models c1 = max_models c"
      "hits (stats c1) = hits (stats c)"
      "misses (stats c1) = misses (stats c) + of_bool (f x = 0)"
      "loads (stats c1) = loads (stats c) + of_bool (f x = 1)"
    and keep: "f x \<le> 1 \<Longrightarrow> models c1 = models c"
    and inst: "f x = 2 \<Longrightarrow> map_of (models c1) k = Some (ms ! x)"
    by auto
  define f1 where "f1 = f(x := Suc (f x))"
  define phs1 where "phs1 = phs[x := phase_after (ms ! x) (Suc (f x))]"
  define g where "g = (\<lambda>i. f i + count_list (x # xs) i)"
  have cnt: "f1 i + count_list xs i = g i" for i
    by (simp add: f1_def g_def)
  have gx: "1 \<le> g x" by (simp add: g_def)
  have run1: "run_schedule k calls (x # xs) (phs, c) = run_schedule k calls xs (phs1, c1)"
    using x len Cons.prems(2) Cons.prems(3)[OF x] st by (simp add: phs1_def)
  have p1: "length phs1 = n" using Cons.prems(2) by (simp add: phs1_def)
  have p2: "phs1 ! i = phase_after (ms ! i) (f1 i)" if "i < n" for i
    using that Cons.prems(2,3) by (simp add: phs1_def f1_def nth_list_update)
  have p3: "1 \<le> max_models c1" using c1(2) Cons.prems(5) by simp
  have safe: "(map_of (models c) k = None \<and> (\<forall>i<n. g i \<le> 2)) \<or> (\<forall>i<n. 1 \<le> f i)"
    using Cons.prems(6) by (simp only: g_def)
  have low: "f x \<le> 1" if "\<forall>i<n. g i \<le> 2"
    using that[rule_format, OF x] by (simp add: g_def)
  have p4: "(map_of (models c1) k = None \<and> (\<forall>i<n. f1 i + count_list xs i \<le> 2)) \<or> (\<forall>i<n. 1 \<le> f1 i)"
  proof (cases "map_of (models c) k = None \<and> (\<forall>i<n. g i \<le> 2)")
    case True
    with keep[OF low] have "map_of (models c1) k = None \<and> (\<forall>i<n. g i \<le> 2)" by simp
    then show ?thesis by (simp only: cnt) simp
  next
    case False
    with safe have "\<forall>i<n. 1 \<le> f i" by blast
    then show ?thesis by (auto simp: f1_def)
  qed
  from Cons.IH[OF xs p1 p2 c1(1) p3 p4]
  obtain phs' c' where r: "run_schedule k calls xs (phs1, c1) = Some (phs', c')"
    and r1: "length phs' = n" "\<forall>i<n. phs' ! i = phase_after (ms ! i) (f1 i + count_list xs i)"
      "cache_consistent c'" "max_models c' = max_models c1" "hits (stats c') = hits (stats c1)"
    and r2: "misses (stats c') = misses (stats c1)
          + (\<Sum>i<n. of_bool (1 \<le> f1 i + count_list xs i)) - (\<Sum>i<n. of_bool (1 \<le> f1 i))"
    and r3: "loads (stats c') = loads (stats c1)
          + (\<Sum>i<n. of_bool (2 \<le> f1 i + count_list xs i)) - (\<Sum>i<n. of_bool (2 \<le> f1 i))"
    and r4: "map_of (models c1) k = None \<and> (\<forall>i<n. f1 i + count_list xs i \<le> 2)
          \<Longrightarrow> map_of (models c') k = None"
    and r5: "xs \<noteq> [] \<and> f1 (last xs) + count_list xs (last xs) = 3
          \<Longrightarrow> map_of (models c') k = Some (ms ! last xs)"
    by blast
  have s1: "(\<Sum>i<n. of_bool (1 \<le> f1 i)) = (\<Sum>i<n. of_bool (1 \<le> f i)) + (of_bool (f x = 0) :: int)"
    unfolding f1_def using sum_fun_upd[OF x, of "\<lambda>j. of_bool (1 \<le> j)" f "Suc (f x)"]
    by (cases "f x") simp_all
  have s2: "(\<Sum>i<n. of_bool (2 \<le> f1 i)) = (\<Sum>i<n. of_bool (2 \<le> f i)) + (of_bool (f x = 1) :: int)"
    unfolding f1_def using sum_fun_upd[OF x, of "\<lambda>j. of_bool (2 \<le> j)" f "Suc (f x)"]
    by (cases "f x = 1") auto
  have g1: "\<forall>i<n. phs' ! i = phase_after (ms ! i) (g i)"
    using r1(2) by (simp only: cnt)
  have r2': "misses (stats c') = misses (stats c1)
          + (\<Sum>i<n. of_bool (1 \<le> g i)) - (\<Sum>i<n. of_bool (1 \<le> f1 i))"
    using r2 by (simp only: cnt)
  have g2: "misses (stats c') = misses (stats c)
          + (\<Sum>i<n. of_bool (1 \<le> g i)) - (\<Sum>i<n. of_bool (1 \<le> f i))"
    using r2' c1(4) s1 by simp
  have r3': "loads (stats c') = loads (stats c1)
          + (\<Sum>i<n. of_bool (2 \<le> g i)) - (\<Sum>i<n. of_bool (2 \<le> f1 i))"
    using r3 by (simp only: cnt)
  have g3: "loads (stats c') = loads (stats c)
          + (\<Sum>i<n. of_bool (2 \<le> g i)) - (\<Sum>i<n. of_bool (2 \<le> f i))"
    using r3' c1(5) s2 by simp
  have r4': "map_of (models c1) k = None \<and> (\<forall>i<n. g i \<le> 2) \<Longrightarrow> map_of (models c') k = None"
    using r4 by (simp add: cnt)
  have g4: "map_of (models c') k = None"
    if a: "map_of (models c) k = None \<and> (\<forall>i<n. g i \<le> 2)"
  proof -
    from a keep[OF low] have "map_of (models c1) k = None \<and> (\<forall>i<n. g i \<le> 2)" by simp
    from r4'[OF this] show ?thesis .
  qed
  have r5': "xs \<noteq> [] \<and> g (last xs) = 3 \<Longrightarrow> map_of (models c') k = Some (ms ! last xs)"
    using r5 by (simp add: cnt)
  have g5: "map_of (models c') k = Some (ms ! last (x # xs))"
    if a: "g (last (x # xs)) = 3"
  proof (cases "xs = []")
    case True
    with a have "f x = 2" by (simp add: g_def)
    from inst[OF this] r True show ?thesis by simp
  next
    case False
    with a have "xs \<noteq> [] \<and> g (last xs) = 3" by simp
    from r5'[OF this] False show ?thesis by simp
  qed
  have "run_schedule k calls (x # xs) (phs, c) = Some (phs', c') \<and> length phs' = n \<and>
       (\<forall>i<n. phs' ! i = phase_after (ms ! i) (g i)) \<and>
       cache_consistent c' \<and> max_models c' = max_models c \<and>
       hits (stats c') = hits (stats c) \<and>
       misses (stats c') = misses (stats c)
          + (\<Sum>i<n. of_bool (1 \<le> g i)) - (\<Sum>i<n. of_bool (1 \<le> f i)) \<and>
       loads (stats c') = loads (stats c)
          + (\<Sum>i<n. of_bool (2 \<le> g i)) - (\<Sum>i<n. of_bool (2 \<le> f i)) \<and>
       (map_of (models c) k = None \<and> (\<forall>i<n. g i \<le> 2)
          \<longrightarrow> map_of (models c') k = None) \<and>
       (x # xs \<noteq> [] \<and> g (last (x # xs)) = 3
          \<longrightarrow> map_of (models c') k = Some (ms ! last (x # xs)))"
    using run1 r r1(1,3) g1 g2 g3 g4 g5 c1(2,3) r1(4,5) by simp
  then show ?case unfolding g_def by blast
qed

lemma lookup_consistent:
  assumes "cache_consistent c"
  shows "cache_consistent (snd (get_model_lookup c k))"
proof (cases "map_of (models c) k")
  case None
  with assms show ?thesis
    by (simp add: get_model_lookup_def cache_consistent_def)
next
  case (Some m)
  show ?thesis
  proof (cases "move_to_end (access_order c) k")
    case (Inl e)
    with Some assms show ?thesis by (simp add: get_model_lookup_def)
  next
    case (Inr d')
    from assms have "distinct (map fst (access_order c))"
      by (simp add: cache_consistent_def dict_keys_def)
    from move_to_end_keys[OF Inr this] Some Inr assms show ?thesis
      by (simp add: get_model_lookup_def cache_consistent_def dict_keys_def)
  qed
qed

lemma get_model_hit_consistent:
  assumes "cache_consistent c" "map_of (models c) k = Some m"
    "get_model c k cfg world rss t1 t2 = Some (r, c')"
  shows "cache_consistent c'"
  using assms lookup_consistent[OF assms(1), of k]
  by (auto simp: get_model_def get_model_lookup_def split: sum.splits)

lemma gets_after_install_hit:
  assumes "cache_consistent c" "map_of (models c) k = Some m"
  shows "\<exists>c'. get_all k calls c = Some (replicate (length calls) (Inr m), c') \<and>
           hits (stats c') = hits (stats c) + int (length calls) \<and>
           misses (stats c') = misses (stats c) \<and> loads (stats c') = loads (stats c)"
  using assms
proof (induction calls arbitrary: c)
  case Nil
  then show ?case by simp
next
  case (Cons a calls)
  from get_model_hit[OF Cons.prems, of "call_config a" "call_world a" "call_rss a"
      "call_t_access a" "call_t_load a"]
  obtain c1 where g: "get_model c k (call_config a) (call_world a) (call_rss a)
        (call_t_access a) (call_t_load a) = Some (Inr m, c1)"
    and s: "hits (stats c1) = hits (stats c) + 1" "misses (stats c1) = misses (stats c)"
      "loads (stats c1) = loads (stats c)" "models c1 = models c"
    by blast
  from get_model_hit_consistent[OF Cons.prems g] have c1: "cache_consistent c1" .
  from s(4) Cons.prems(2) have "map_of (models c1) k = Some m" by simp
  from Cons.IH[OF c1 this] obtain c' where
    r: "get_all k calls c1 = Some (replicate (length calls) (Inr m), c')"
      "hits (stats c') = hits (stats c1) + int (length calls)"
      "misses (stats c') = misses (stats c1)" "loads (stats c') = loads (stats c1)"
    by blast
  from g r s show ?case by simp
qed

lemma get_model_miss_loads:
  assumes "cache_consistent c" "1 \<le> max_models c" "map_of (models c) k = None"
    "run_loader k cfg world = Inr m"
  shows "\<exists>c'. get_model c k cfg world rss t1 t2 = Some (Inr m, c') \<and>
           cache_consistent c' \<and>
           misses (stats c') = misses (stats c) + 1 \<and> loads (stats c') = loads (stats c) + 1 \<and>
           hits (stats c') = hits (stats c) \<and> map_of (models c') k = Some m"
proof -
  let ?c1 = "c\<lparr>stats := (stats c)\<lparr>misses := misses (stats c) + 1\<rparr>\<rparr>"
  let ?c2 = "?c1\<lparr>stats := (stats ?c1)\<lparr>loads := loads (stats ?c1) + 1\<rparr>\<rparr>"
  have lk: "get_model_lookup c k = (Inr Miss, ?c1)" using assms(3) by (simp add: get_model_lookup_def)
  have ld: "load_model_into ?c1 k cfg world = (Inr m, ?c2)" using assms(4) by (simp add: load_model_into_def)
  have cons2: "cache_consistent ?c2" using assms(1) by (simp add: cache_consistent_def)
  have mm2: "1 \<le> max_models ?c2" using assms(2) by simp
  from add_to_cache_terminates[OF cons2 mm2, of k m cfg rss t1 t2]
  obtain c' where add: "add_to_cache ?c2 k m cfg rss t1 t2 = Some c'" by blast
  have g: "get_model c k cfg world rss t1 t2 = Some (Inr m, c')"
    using add by (simp add: get_model_def lk ld)
  from add_to_cache_stats[OF add cons2] add_to_cache_consistent(1)[OF add cons2] g show ?thesis by simp
qed

text \<open>
  Calls made one after the other for an absent key: the first loads, the others hit and
  return the model that the first loaded.
\<close>

lemma sequential_gets_load_once:
  assumes "cache_consistent c" "1 \<le> max_models c" "map_of (models c) k = None"
    "run_loader k (call_config a) (call_world a) = Inr m"
  shows "\<exists>c'. get_all k (a # calls) c = Some (replicate (Suc (length calls)) (Inr m), c') \<and>
           misses (stats c') = misses (stats c) + 1 \<and> loads (stats c') = loads (stats c) + 1 \<and>
           hits (stats c') = hits (stats c) + int (length calls)"
proof -
  from get_model_miss_loads[OF assms, of "call_rss a" "call_t_access a" "call_t_load a"]
  obtain c1 where g: "get_model c k (call_config a) (call_world a) (call_rss a)
        (call_t_access a) (call_t_load a) = Some (Inr m, c1)"
    and s: "cache_consistent c1" "misses (stats c1) = misses (stats c) + 1"
      "loads (stats c1) = loads (stats c) + 1" "hits (stats c1) = hits (stats c)"
      "map_of (models c1) k = Some m"
    by blast
  from gets_after_install_hit[OF s(1,5), of calls] obtain c' where
    r: "get_all k calls c1 = Some (replicate (length calls) (Inr m), c')"
      "hits (stats c') = hits (stats c1) + int (length calls)"
      "misses (stats c') = misses (stats c1)" "loads (stats c') = loads (stats c1)"
    by blast
  from g r s show ?thesis by simp
qed

lemmas schedule_eval = two_calls_def m1_call_def object_provider_def call_step_def run_schedule.simps

text \<open>
  C2 as stated fails. \<^verbatim>\<open>get_model\<close> releases the lock between its lookup and its install
  and keeps no record of a load in progress. Two calls for the absent key \<open>m1\<close> that take
  their steps in turn both miss and both invoke the loader (\<^verbatim>\<open>misses = 2\<close>, \<^verbatim>\<open>loads = 2\<close>),
  and they return different model objects: the first call returns object 1, the second
  object 2, which is also the one left in the cache.
\<close>

theorem interleaved_gets_return_different_models:
  "map_option (\<lambda>(phs, c). (phs, misses (stats c), loads (stats c), hits (stats c), map_of (models c) ''m1''))
     (run_schedule ''m1'' two_calls [0, 1, 0, 1, 0, 1]
        ([Looking, Looking], ModelCache_init 5 4096 3600))
   = Some ([Returned (Inr (''/models/m1.pt'', 1)), Returned (Inr (''/models/m1.pt'', 2))],
           2, 2, 0, Some (''/models/m1.pt'', 2))"
  by (simp add: schedule_eval cache_eval)

text \<open>
  C2, amended. The cache does not coalesce loads; how many loads \<open>n\<close> calls for an absent
  key cause depends on how they run. The three steps of a call run together are
  \<^verbatim>\<open>get_model\<close>. Take \<open>n \<ge> 1\<close> calls for a key that is absent from a cache whose dictionaries
  are in step and whose limit is at least one model, the load of call \<open>i\<close> returning the
  model \<open>ms ! i\<close>. Under every schedule in which each call looks up before any call installs
  (\<open>pre\<close> holds the lookup of every call and possibly its load, \<open>post\<close> the remaining steps),
  every call misses, invokes the loader itself and returns the model of its own load:
  \<^verbatim>\<open>misses\<close> and \<^verbatim>\<open>loads\<close> both grow by \<open>n\<close>, \<^verbatim>\<open>hits\<close> is unchanged, the cache ends up holding the
  model installed last, and every \<^verbatim>\<open>get_model\<close> call that starts after that hits the cache and
  returns this model without loading. When the same calls are made one after the other,
  only the first loads, and all of them return the model it loaded: \<^verbatim>\<open>misses\<close> and \<^verbatim>\<open>loads\<close>
  grow by 1 and \<^verbatim>\<open>hits\<close> by \<open>n - 1\<close>.
\<close>

theorem interleaved_gets_load_each:
  assumes "cache_consistent c" "1 \<le> max_models c" "map_of (models c) k = None"
    and "calls \<noteq> []" "length ms = length calls"
    and "\<forall>i<length calls. run_loader k (call_config (calls ! i)) (call_world (calls ! i)) = Inr (ms ! i)"
    and "set (pre @ post) \<subseteq> {..<length calls}"
    and "\<forall>i<length calls. 1 \<le> count_list pre i \<and> count_list pre i \<le> 2 \<and>
            count_list pre i + count_list post i = 3"
  shows "run_schedule k [a] [0, 0, 0] ([Looking], c0) =
           map_option (\<lambda>(r, c'). ([Returned r], c'))
             (get_model c0 k (call_config a) (call_world a) (call_rss a) (call_t_access a) (call_t_load a)) \<and>
         (\<exists>c'. run_schedule k calls (pre @ post) (replicate (length calls) Looking, c)
                  = Some (map (\<lambda>m. Returned (Inr m)) ms, c') \<and>
               misses (stats c') = misses (stats c) + int (length calls) \<and>
               loads (stats c') = loads (stats c) + int (length calls) \<and>
               hits (stats c') = hits (stats c) \<and>
               map_of (models c') k = Some (ms ! last post) \<and>
               (\<forall>cfg world rss t1 t2.
                  \<exists>c''. get_model c' k cfg world rss t1 t2 = Some (Inr (ms ! last post), c'') \<and>
                        hits (stats c'') = hits (stats c') + 1 \<and>
                        misses (stats c'') = misses (stats c') \<and>
                        loads (stats c'') = loads (stats c'))) \<and>
         (\<exists>c'. get_all k calls c = Some (replicate (length calls) (Inr (ms ! 0)), c') \<and>
               misses (stats c') = misses (stats c) + 1 \<and>
               loads (stats c') = loads (stats c) + 1 \<and>
               hits (stats c') = hits (stats c) + int (length calls) - 1)"
proof -
  define n where "n = length calls"
  have len: "length calls = n" "length ms = n" using assms(5) by (simp_all add: n_def)
  have ld: "run_loader k (call_config (calls ! i)) (call_world (calls ! i)) = Inr (ms ! i)"
    if "i < n" for i using that assms(6) by (simp add: n_def)
  from assms(7) have pre: "set pre \<subseteq> {..<n}" and post: "set post \<subseteq> {..<n}"
    by (simp_all add: n_def)
  have cnt: "1 \<le> count_list pre i" "count_list pre i \<le> 2" "count_list pre i + count_list post i = 3"
    if "i < n" for i using that assms(8) by (simp_all add: n_def)
  have n0: "0 < n" using assms(4) by (simp add: n_def)
  let ?start = "replicate n Looking :: 'a phase list"
  have s1: "length ?start = n" by simp
  have s2: "?start ! i = phase_after (ms ! i) ((\<lambda>_. 0) i)" if "i < n" for i using that by simp
  have s3: "(map_of (models c) k = None \<and> (\<forall>i<n. (\<lambda>_. 0) i + count_list pre i \<le> 2)) \<or>
            (\<forall>i<n. 1 \<le> (\<lambda>_. 0::nat) i)"
    using assms(3) cnt(2) by simp
  from run_schedule_progress[OF len ld pre s1 s2 assms(1,2) s3]
  obtain phs1 c1 where a: "run_schedule k calls pre (?start, c) = Some (phs1, c1)"
    and a1: "length phs1 = n" "\<forall>i<n. phs1 ! i = phase_after (ms ! i) (count_list pre i)"
      "cache_consistent c1" "max_models c1 = max_models c" "hits (stats c1) = hits (stats c)"
    and a2: "misses (stats c1) = misses (stats c)
          + (\<Sum>i<n. of_bool (1 \<le> count_list pre i)) - (\<Sum>i<n. of_bool (1 \<le> (0::nat)))"
    and a3: "loads (stats c1) = loads (stats c)
          + (\<Sum>i<n. of_bool (2 \<le> count_list pre i)) - (\<Sum>i<n. of_bool (2 \<le> (0::nat)))"
    by auto
  have t2: "phs1 ! i = phase_after (ms ! i) (count_list pre i)" if "i < n" for i
    using that a1(2) by simp
  have t3: "1 \<le> max_models c1" using a1(4) assms(2) by simp
  have t4: "(map_of (models c1) k = None \<and> (\<forall>i<n. count_list pre i + count_list post i \<le> 2)) \<or>
            (\<forall>i<n. 1 \<le> count_list pre i)"
    using cnt(1) by simp
  from run_schedule_progress[OF len ld post a1(1) t2 a1(3) t3 t4]
  obtain phs2 c2 where b: "run_schedule k calls post (phs1, c1) = Some (phs2, c2)"
    and b1: "length phs2 = n"
      "\<forall>i<n. phs2 ! i = phase_after (ms ! i) (count_list pre i + count_list post i)"
      "cache_consistent c2" "hits (stats c2) = hits (stats c1)"
    and b2: "misses (stats c2) = misses (stats c1)
          + (\<Sum>i<n. of_bool (1 \<le> count_list pre i + count_list post i))
          - (\<Sum>i<n. of_bool (1 \<le> count_list pre i))"
    and b3: "loads (stats c2) = loads (stats c1)
          + (\<Sum>i<n. of_bool (2 \<le> count_list pre i + count_list post i))
          - (\<Sum>i<n. of_bool (2 \<le> count_list pre i))"
    and b4: "post \<noteq> [] \<and> count_list pre (last post) + count_list post (last post) = 3
          \<Longrightarrow> map_of (models c2) k = Some (ms ! last post)"
    by blast
  have e1: "(\<Sum>i<n. of_bool (1 \<le> count_list pre i)) = int n"
    by (rule sum_of_bool_all) (rule cnt(1))
  have e2: "(\<Sum>i<n. of_bool (1 \<le> count_list pre i + count_list post i)) = int n"
    by (rule sum_of_bool_all) (simp add: cnt(3))
  have e3: "(\<Sum>i<n. of_bool (2 \<le> count_list pre i + count_list post i)) = int n"
    by (rule sum_of_bool_all) (simp add: cnt(3))
  have m: "misses (stats c2) = misses (stats c) + int n" using a2 b2 e1 e2 by simp
  have l: "loads (stats c2) = loads (stats c) + int n" using a3 b3 e3 by simp
  have h: "hits (stats c2) = hits (stats c)" using a1(5) b1(4) by simp
  have phs: "phs2 = map (\<lambda>m. Returned (Inr m)) ms"
  proof (rule nth_equalityI)
    show "length phs2 = length (map (\<lambda>m. Returned (Inr m)) ms)" using b1(1) len by simp
  next
    fix i assume "i < length phs2"
    then have i: "i < n" using b1(1) by simp
    from b1(2)[rule_format, OF i] cnt(3)[OF i] i len
    show "phs2 ! i = map (\<lambda>m. Returned (Inr m)) ms ! i" by (simp add: numeral_3_eq_3)
  qed
  from cnt(2,3)[OF n0] have "count_list post 0 \<noteq> 0" by simp
  then have ne: "post \<noteq> []" by auto
  with post have "last post < n" using last_in_set by blast
  from cnt(3)[OF this] ne b4 have held: "map_of (models c2) k = Some (ms ! last post)" by simp
  have later: "\<exists>c''. get_model c2 k cfg world rss t1 t2 = Some (Inr (ms ! last post), c'') \<and>
                  hits (stats c'') = hits (stats c2) + 1 \<and>
                  misses (stats c'') = misses (stats c2) \<and>
                  loads (stats c'') = loads (stats c2)" for cfg world rss t1 t2
    using get_model_hit[OF b1(3) held, of cfg world rss t1 t2] by blast
  have run: "run_schedule k calls (pre @ post) (replicate (length calls) Looking, c)
        = Some (map (\<lambda>m. Returned (Inr m)) ms, c2)"
    using a b phs by (simp add: run_schedule_append n_def)
  have inter: "\<exists>c'. run_schedule k calls (pre @ post) (replicate (length calls) Looking, c)
                  = Some (map (\<lambda>m. Returned (Inr m)) ms, c') \<and>
               misses (stats c') = misses (stats c) + int (length calls) \<and>
               loads (stats c') = loads (stats c) + int (length calls) \<and>
               hits (stats c') = hits (stats c) \<and>
               map_of (models c') k = Some (ms ! last post) \<and>
               (\<forall>cfg world rss t1 t2.
                  \<exists>c''. get_model c' k cfg world rss t1 t2 = Some (Inr (ms ! last post), c'') \<and>
                        hits (stats c'') = hits (stats c') + 1 \<and>
                        misses (stats c'') = misses (stats c') \<and>
                        loads (stats c'') = loads (stats c'))"
    using run m l h held later unfolding n_def by blast
  from assms(4) obtain b rest where calls: "calls = b # rest" by (cases calls) auto
  from ld[OF n0] have "run_loader k (call_config b) (call_world b) = Inr (ms ! 0)"
    by (simp add: calls)
  from sequential_gets_load_once[OF assms(1,2,3) this, of rest]
  have seq: "\<exists>c'. get_all k calls c = Some (replicate (length calls) (Inr (ms ! 0)), c') \<and>
               misses (stats c') = misses (stats c) + 1 \<and>
               loads (stats c') = loads (stats c) + 1 \<and>
               hits (stats c') = hits (stats c) + int (length calls) - 1"
    by (simp add: calls)
  from get_model_as_steps[of k a c0] inter seq show ?thesis by blast
qed

text \<open>
  The two calls for \<open>m1\<close> on the empty cache: the second call loads before the first, and
  the first installs last.
\<close>

theorem interleaved_gets_witness:
  "cache_consistent (ModelCache_init 5 4096 3600 :: (string \<times> nat) ModelCache) \<and>
   1 \<le> max_models (ModelCache_init 5 4096 3600 :: (string \<times> nat) ModelCache) \<and>
   map_of (models (ModelCache_init 5 4096 3600 :: (string \<times> nat) ModelCache)) ''m1'' = None \<and>
   run_loader ''m1'' (call_config (two_calls ! 0)) (call_world (two_calls ! 0)) = Inr (''/models/m1.pt'', 1) \<and>
   run_loader ''m1'' (call_config (two_calls ! 1)) (call_world (two_calls ! 1)) = Inr (''/models/m1.pt'', 2) \<and>
   map (count_list [0, 1, 1 :: nat]) [0, 1] = [1, 2 :: nat] \<and>
   map (count_list [0, 1, 0 :: nat]) [0, 1] = [2, 1 :: nat] \<and>
   (\<exists>c'. run_schedule ''m1'' two_calls ([0, 1, 1] @ [0, 1, 0]) ([Looking, Looking], ModelCache_init 5 4096 3600)
            = Some ([Returned (Inr (''/models/m1.pt'', 1)), Returned (Inr (''/models/m1.pt'', 2))], c') \<and>
          misses (stats c') = 2 \<and> loads (stats c') = 2 \<and> hits (stats c') = 0 \<and>
          map_of (models c') ''m1'' = Some (''/models/m1.pt'', 1) \<and>
          (\<forall>cfg world rss t1 t2.
              \<exists>c''. get_model c' ''m1'' cfg world rss t1 t2 = Some (Inr (''/models/m1.pt'', 1), c'') \<and>
                    hits (stats c'') = 1 \<and> misses (stats c'') = 2 \<and> loads (stats c'') = 2)) \<and>
   (\<exists>c'. get_all ''m1'' two_calls (ModelCache_init 5 4096 3600)
            = Some ([Inr (''/models/m1.pt'', 1), Inr (''/models/m1.pt'', 1)], c') \<and>
          misses (stats c') = 1 \<and> loads (stats c') = 1 \<and> hits (stats c') = 1)"
proof -
  let ?c = "ModelCache_init 5 4096 3600 :: (string \<times> nat) ModelCache"
  let ?ms = "[(''/models/m1.pt'', 1), (''/models/m1.pt'', 2 :: nat)]"
  have 1: "cache_consistent ?c"
    by (simp add: ModelCache_init_def cache_consistent_def dict_keys_def dict_values_def)
  have 2: "1 \<le> max_models ?c" by (simp add: ModelCache_init_def)
  have 3: "map_of (models ?c) ''m1'' = None" by (simp add: ModelCache_init_def)
  have 4: "two_calls \<noteq> []" by (simp add: two_calls_def)
  have 5: "length ?ms = length two_calls" by (simp add: two_calls_def)
  have l0: "run_loader ''m1'' (call_config (two_calls ! 0)) (call_world (two_calls ! 0)) = Inr (''/models/m1.pt'', 1)"
    by (simp add: schedule_eval cache_eval)
  have l1: "run_loader ''m1'' (call_config (two_calls ! 1)) (call_world (two_calls ! 1)) = Inr (''/models/m1.pt'', 2)"
    by (simp add: schedule_eval cache_eval)
  have 6: "\<forall>i<length two_calls. run_loader ''m1'' (call_config (two_calls ! i)) (call_world (two_calls ! i)) = Inr (?ms ! i)"
  proof (intro allI impI)
    fix i assume "i < length two_calls"
    then have "i = 0 \<or> i = 1" by (auto simp: two_calls_def)
    then show "run_loader ''m1'' (call_config (two_calls ! i)) (call_world (two_calls ! i)) = Inr (?ms ! i)"
      using l0 l1 by auto
  qed
  have 7: "set ([0, 1, 1] @ [0, 1, 0]) \<subseteq> {..<length two_calls}" by (simp add: two_calls_def)
  have 8: "\<forall>i<length two_calls. 1 \<le> count_list [0, 1, 1] i \<and> count_list [0, 1, 1] i \<le> 2 \<and>
            count_list [0, 1, 1] i + count_list [0, 1, 0] i = 3"
  proof (intro allI impI)
    fix i assume "i < length two_calls"
    then have "i = 0 \<or> i = 1" by (auto simp: two_calls_def)
    then show "1 \<le> count_list [0, 1, 1] i \<and> count_list [0, 1, 1] i \<le> 2 \<and>
            count_list [0, 1, 1] i + count_list [0, 1, 0] i = 3"
      by auto
  qed
  note both = interleaved_gets_load_each[OF 1 2 3 4 5 6 7 8]
  from both obtain d where
    sq: "get_all ''m1'' two_calls ?c = Some (replicate (length two_calls) (Inr (?ms ! 0)), d)"
    and sm: "misses (stats d) = misses (stats ?c) + 1"
    and sl: "loads (stats d) = loads (stats ?c) + 1"
    and sh: "hits (stats d) = hits (stats ?c) + int (length two_calls) - 1"
    by blast
  have rp: "replicate (length two_calls) (Inr (?ms ! 0))
      = [Inr (''/models/m1.pt'', 1), Inr (''/models/m1.pt'', 1 :: nat) :: error + string \<times> nat]"
    by (simp add: two_calls_def)
  have sq': "get_all ''m1'' two_calls ?c
      = Some ([Inr (''/models/m1.pt'', 1), Inr (''/models/m1.pt'', 1)], d)"
    using sq unfolding rp .
  have sm': "misses (stats d) = 1" using sm by (simp add: ModelCache_init_def)
  have sl': "loads (stats d) = 1" using sl by (simp add: ModelCache_init_def)
  have sh': "hits (stats d) = 1" using sh by (simp add: ModelCache_init_def two_calls_def)
  from sq' sm' sl' sh' have
    seq: "\<exists>c'. get_all ''m1'' two_calls ?c
            = Some ([Inr (''/models/m1.pt'', 1), Inr (''/models/m1.pt'', 1)], c') \<and>
          misses (stats c') = 1 \<and> loads (stats c') = 1 \<and> hits (stats c') = 1"
    by blast
  from both
  obtain c' where
    r: "run_schedule ''m1'' two_calls ([0, 1, 1] @ [0, 1, 0]) (replicate (length two_calls) Looking, ?c)
          = Some (map (\<lambda>m. Returned (Inr m)) ?ms, c')"
    and m: "misses (stats c') = misses (stats ?c) + int (length two_calls)"
    and l: "loads (stats c') = loads (stats ?c) + int (length two_calls)"
    and h: "hits (stats c') = hits (stats ?c)"
    and held: "map_of (models c') ''m1'' = Some (?ms ! last [0, 1, 0])"
    and later: "\<forall>cfg world rss t1 t2.
          \<exists>c''. get_model c' ''m1'' cfg world rss t1 t2 = Some (Inr (?ms ! last [0, 1, 0]), c'') \<and>
                hits (stats c'') = hits (stats c') + 1 \<and>
                misses (stats c'') = misses (stats c') \<and>
                loads (stats c'') = loads (stats c')"
    by blast
  have rep: "replicate (length two_calls) Looking = [Looking, Looking]"
    by (simp add: two_calls_def)
  have mp: "map (\<lambda>m. Returned (Inr m)) ?ms
      = [Returned (Inr (''/models/m1.pt'', 1)), Returned (Inr (''/models/m1.pt'', 2 :: nat))]"
    by simp
  have lst: "?ms ! last [0, 1, 0] = (''/models/m1.pt'', 1)" by simp
  have r': "run_schedule ''m1'' two_calls ([0, 1, 1] @ [0, 1, 0]) ([Looking, Looking], ?c)
          = Some ([Returned (Inr (''/models/m1.pt'', 1)), Returned (Inr (''/models/m1.pt'', 2))], c')"
    using r unfolding rep mp .
  have m': "misses (stats c') = 2" using m by (simp add: ModelCache_init_def two_calls_def)
  have l': "loads (stats c') = 2" using l by (simp add: ModelCache_init_def two_calls_def)
  have h': "hits (stats c') = 0" using h by (simp add: ModelCache_init_def)
  have held': "map_of (models c') ''m1'' = Some (''/models/m1.pt'', 1)" using held unfolding lst .
  have later': "\<exists>c''. get_model c' ''m1'' cfg world rss t1 t2 = Some (Inr (''/models/m1.pt'', 1), c'') \<and>
                hits (stats c'') = 1 \<and> misses (stats c'') = 2 \<and> loads (stats c'') = 2"
    for cfg world rss t1 t2
    using later[rule_format, of cfg world rss t1 t2] unfolding lst m' l' h' by simp
  have c78: "map (count_list [0, 1, 1 :: nat]) [0, 1] = [1, 2 :: nat]"
    "map (count_list [0, 1, 0 :: nat]) [0, 1] = [2, 1 :: nat]" by simp_all
  from r' m' l' h' held' later' have
    ex: "\<exists>c'. run_schedule ''m1'' two_calls ([0, 1, 1] @ [0, 1, 0]) ([Looking, Looking], ?c)
            = Some ([Returned (Inr (''/models/m1.pt'', 1)), Returned (Inr (''/models/m1.pt'', 2))], c') \<and>
          misses (stats c') = 2 \<and> loads (stats c') = 2 \<and> hits (stats c') = 0 \<and>
          map_of (models c') ''m1'' = Some (''/models/m1.pt'', 1) \<and>
          (\<forall>cfg world rss t1 t2.
              \<exists>c''. get_model c' ''m1'' cfg world rss t1 t2 = Some (Inr (''/models/m1.pt'', 1), c'') \<and>
                    hits (stats c'') = 1 \<and> misses (stats c'') = 2 \<and> loads (stats c'') = 2)"
    by blast
  from 1 2 3 l0 l1 c78 ex seq show ?thesis by blast
qed

text \<open>The bound of C3 on a run with a limit of 2 models and 60 MB and models of 100 MB.\<close>

theorem cache_bounds_witness:
  "(0::int) \<le> 2 \<and> (0::int) \<le> 60 \<and>
   (\<exists>c. run_ops small_budget_ops (ModelCache_init 2 60 3600) = Some c \<and>
        int (length (models c)) \<le> 2 \<and>
        (total_memory c \<le> 60 \<or> (\<exists>k. model_sizes c = [(k, total_memory c)])) \<and>
        (\<exists>s \<in> set (0 # dict_values (model_sizes c)). total_memory c \<le> 60 + s))"
proof -
  have "run_ops small_budget_ops (ModelCache_init 2 60 3600) \<noteq> None"
    by (simp add: small_budget_ops_def cache_eval)
  then obtain c where c: "run_ops small_budget_ops (ModelCache_init 2 60 3600) = Some c" by blast
  from cache_bounds_after_ops[OF c] c show ?thesis by simp
qed

lemma get_stats_hit_rate:
  "max_memory_mb c \<noteq> 0 \<Longrightarrow>
     \<exists>v. get_stats c = Inr v \<and>
       hit_rate v = (if hits (stats c) + misses (stats c) > 0
                     then real_of_int (hits (stats c)) / real_of_int (hits (stats c) + misses (stats c))
                     else 0)"
  by (simp add: get_stats_def compute_hit_rate_def Let_def)

text \<open>
  C10. The claim is that \<^verbatim>\<open>get_stats\<close> is total on every cache state because the hit-rate
  division is guarded. The hit-rate division is guarded (lemma \<open>get_stats_hit_rate\<close>), but the
  division for \<^verbatim>\<open>memory_usage_pct\<close> in the same function is not: on a cache constructed with
  \<^verbatim>\<open>max_memory_mb = 0\<close> the call raises \<^verbatim>\<open>ZeroDivisionError\<close> and returns no statistics at
  all.
\<close>

theorem get_stats_zero_memory_limit_raises:
  "get_stats (ModelCache_init 5 0 3600 :: nat ModelCache) = Inl ZeroDivisionError"
  by (simp add: get_stats_def ModelCache_init_def Let_def)

section \<open>Properties of the camera stream pipeline\<close>

lemma capture_frame_full:
  assumes "full (frame_queue s)" "qsize (frame_queue s) = maxsize (frame_queue s)"
  shows "items (frame_queue (capture_frame s (Some frame) t)) = tl (items (frame_queue s)) @ [(frame, t)]"
    and "dropped_frames (capture_frame s (Some frame) t) = dropped_frames s + 1"
    and "frame_count (capture_frame s (Some frame) t) = frame_count s + 1"
proof -
  from assms have pos: "0 < maxsize (frame_queue s)"
    and len: "int (length (items (frame_queue s))) = maxsize (frame_queue s)"
    by (auto simp: full_def qsize_def split: if_splits)
  then obtain x xs where xs: "items (frame_queue s) = x # xs" by (cases "items (frame_queue s)") auto
  show "items (frame_queue (capture_frame s (Some frame) t)) = tl (items (frame_queue s)) @ [(frame, t)]"
    and "dropped_frames (capture_frame s (Some frame) t) = dropped_frames s + 1"
    and "frame_count (capture_frame s (Some frame) t) = frame_count s + 1"
    using pos len xs
    by (simp_all add: capture_frame_def Let_def put_nowait_def get_nowait_def full_def qsize_def)
qed

lemmas stream_eval = session_with_capacity_def StreamSession_init_def capture_all.simps
  capture_frame_def take_frame_def put_nowait_def get_nowait_def full_def qsize_def
  deque_append_def Let_def

text \<open>
  C5. The frame queue is drop-oldest: when the capture loop produces a frame while the
  queue is full (it holds exactly its capacity), the oldest queued frame is discarded,
  \<^verbatim>\<open>dropped_frames\<close> grows by one and the new frame is queued last. With capacity 2 and
  frames F1 to F4 captured before the processor takes any, the processor then takes exactly
  F3 and F4, and \<^verbatim>\<open>dropped_frames\<close> is 2.
\<close>

theorem frame_queue_drops_oldest:
  "(full (frame_queue s) \<and> qsize (frame_queue s) = maxsize (frame_queue s) \<longrightarrow>
      items (frame_queue (capture_frame s (Some frame) t)) = tl (items (frame_queue s)) @ [(frame, t)] \<and>
      dropped_frames (capture_frame s (Some frame) t) = dropped_frames s + 1) \<and>
   (let s4 = capture_all (session_with_capacity 2)
               [(''F1'', 1), (''F2'', 2), (''F3'', 3), (''F4'', 4)];
        (first, s5) = take_frame s4;
        (second, s6) = take_frame s5;
        (third, s7) = take_frame s6
    in dropped_frames s4 = 2 \<and> frame_count s4 = 4 \<and>
       first = Some (''F3'', 3) \<and> second = Some (''F4'', 4) \<and> third = None)"
proof (intro conjI impI)
  assume "full (frame_queue s) \<and> qsize (frame_queue s) = maxsize (frame_queue s)"
  then show "items (frame_queue (capture_frame s (Some frame) t)) = tl (items (frame_queue s)) @ [(frame, t)]"
    and "dropped_frames (capture_frame s (Some frame) t) = dropped_frames s + 1"
    using capture_frame_full[of s frame t] by simp_all
next
  show "let s4 = capture_all (session_with_capacity 2)
               [(''F1'', 1), (''F2'', 2), (''F3'', 3), (''F4'', 4)];
        (first, s5) = take_frame s4;
        (second, s6) = take_frame s5;
        (third, s7) = take_frame s6
    in dropped_frames s4 = 2 \<and> frame_count s4 = 4 \<and>
       first = Some (''F3'', 3) \<and> second = Some (''F4'', 4) \<and> third = None"
    by (simp add: stream_eval)
qed

text \<open>C5 at the third frame of that run: the queue holds F1 and F2 and is full.\<close>

theorem frame_queue_drops_oldest_witness:
  "full (frame_queue (capture_all (session_with_capacity 2) [(''F1'', 1), (''F2'', 2)])) \<and>
   qsize (frame_queue (capture_all (session_with_capacity 2) [(''F1'', 1), (''F2'', 2)])) = 2 \<and>
   items (frame_queue (capture_frame (capture_all (session_with_capacity 2) [(''F1'', 1), (''F2'', 2)])
            (Some ''F3'') 3)) = [(''F2'', 2), (''F3'', 3)] \<and>
   dropped_frames (capture_frame (capture_all (session_with_capacity 2) [(''F1'', 1), (''F2'', 2)])
            (Some ''F3'') 3) = 1"
proof -
  let ?s = "capture_all (session_with_capacity 2) [(''F1'', 1), (''F2'', 2)]"
  have 1: "full (frame_queue ?s)" by (simp add: stream_eval)
  have 2: "qsize (frame_queue ?s) = maxsize (frame_queue ?s)" by (simp add: stream_eval)
  have 3: "maxsize (frame_queue ?s) = 2" "items (frame_queue ?s) = [(''F1'', 1), (''F2'', 2)]"
    "dropped_frames ?s = 0" by (simp_all add: stream_eval)
  from frame_queue_drops_oldest[of ?s "''F3''" 3] 1 2 3 show ?thesis by simp
qed

section \<open>Properties of motion detection\<close>

lemmas motion_eval = process_frame_def motion_mask_def motion_threshold_of_def
  significant_contours_def bounding_box_of_def py_int_def pixel_cv2_def sample_camera_def
  empty_store_def Let_def

lemma process_frame_cases:
  "process_frame cv cam cam_id frame prev_frame uuid now1 now2 db = db \<or>
   (\<exists>prev. prev_frame = Some prev \<and> motion_detection_enabled cam \<and>
      countNonZero cv (motion_mask cv prev frame) > motion_threshold_of cam \<and>
      process_frame cv cam cam_id frame prev_frame uuid now1 now2 db =
        db\<lparr>camera_events := camera_events db @
          [\<lparr>event_id = uuid, event_camera_id = cam_id,
            event_type = ''motion_detected'', event_timestamp = now1,
            event_metadata =
              \<lparr>motion_pixels = countNonZero cv (motion_mask cv prev frame),
               contour_count = int (length (significant_contours cv
                  (findContours_external cv (motion_mask cv prev frame)))),
               bounding_boxes = map (bounding_box_of cv) (take 10 (significant_contours cv
                  (findContours_external cv (motion_mask cv prev frame))))\<rparr>,
            event_created_at = now2\<rparr>]\<rparr>)"
  by (cases prev_frame) (simp_all add: process_frame_def Let_def)

text \<open>
  C6. With a previous frame \<open>prev\<close>, \<open>n\<close> the number of nonzero pixels of the motion mask and
  \<open>sig\<close> the significant contours: an event is inserted only when \<open>n\<close> is strictly greater
  than the camera's motion threshold (when \<open>n\<close> equals the threshold the store is unchanged);
  the event reports \<open>n\<close>, the number of significant contours, and the bounding boxes of the
  first 10 of them at most; a contour is significant exactly when its area is strictly
  greater than 500, so one of area 500 is not. Without a previous frame nothing is inserted.
\<close>

theorem motion_detection_strict:
  assumes "db' = process_frame cv cam cam_id frame (Some prev) uuid now1 now2 db"
    and "n = countNonZero cv (motion_mask cv prev frame)"
    and "sig = significant_contours cv (findContours_external cv (motion_mask cv prev frame))"
  shows "(camera_events db' \<noteq> camera_events db \<longrightarrow> n > motion_threshold_of cam) \<and>
         (n = motion_threshold_of cam \<longrightarrow> db' = db) \<and>
         (camera_events db' \<noteq> camera_events db \<longrightarrow>
            (\<exists>ev. camera_events db' = camera_events db @ [ev] \<and> event_type ev = ''motion_detected'' \<and>
                  motion_pixels (event_metadata ev) = n \<and>
                  contour_count (event_metadata ev) = int (length sig) \<and>
                  bounding_boxes (event_metadata ev) = map (bounding_box_of cv) (take 10 sig) \<and>
                  length (bounding_boxes (event_metadata ev)) \<le> 10)) \<and>
         (\<forall>c. c \<in> set sig \<longleftrightarrow>
            c \<in> set (findContours_external cv (motion_mask cv prev frame)) \<and> contourArea cv c > 500) \<and>
         (\<forall>c. contourArea cv c = 500 \<longrightarrow> c \<notin> set sig) \<and>
         process_frame cv cam cam_id frame None uuid now1 now2 db = db"
proof -
  have a: "\<forall>c. c \<in> set sig \<longleftrightarrow>
            c \<in> set (findContours_external cv (motion_mask cv prev frame)) \<and> contourArea cv c > 500"
    by (simp add: assms(3) significant_contours_def)
  then have b: "\<forall>c. contourArea cv c = 500 \<longrightarrow> c \<notin> set sig" by auto
  have c: "process_frame cv cam cam_id frame None uuid now1 now2 db = db"
    by (simp add: process_frame_def)
  from process_frame_cases[of cv cam cam_id frame "Some prev" uuid now1 now2 db]
  show ?thesis
  proof
    assume "process_frame cv cam cam_id frame (Some prev) uuid now1 now2 db = db"
    with assms(1) have same: "db' = db" by simp
    with a b c show ?thesis by simp
  next
    assume "\<exists>prev'. Some prev = Some prev' \<and> motion_detection_enabled cam \<and>
      countNonZero cv (motion_mask cv prev' frame) > motion_threshold_of cam \<and>
      process_frame cv cam cam_id frame (Some prev) uuid now1 now2 db =
        db\<lparr>camera_events := camera_events db @
          [\<lparr>event_id = uuid, event_camera_id = cam_id,
            event_type = ''motion_detected'', event_timestamp = now1,
            event_metadata =
              \<lparr>motion_pixels = countNonZero cv (motion_mask cv prev' frame),
               contour_count = int (length (significant_contours cv
                  (findContours_external cv (motion_mask cv prev' frame)))),
               bounding_boxes = map (bounding_box_of cv) (take 10 (significant_contours cv
                  (findContours_external cv (motion_mask cv prev' frame))))\<rparr>,
            event_created_at = now2\<rparr>]\<rparr>"
    with assms have gt: "n > motion_threshold_of cam"
      and ev: "camera_events db' = camera_events db @
          [\<lparr>event_id = uuid, event_camera_id = cam_id,
            event_type = ''motion_detected'', event_timestamp = now1,
            event_metadata =
              \<lparr>motion_pixels = n, contour_count = int (length sig),
               bounding_boxes = map (bounding_box_of cv) (take 10 sig)\<rparr>,
            event_created_at = now2\<rparr>]"
      by auto
    from gt have 1: "camera_events db' \<noteq> camera_events db \<longrightarrow> n > motion_threshold_of cam"
      and 2: "n = motion_threshold_of cam \<longrightarrow> db' = db" by simp_all
    from ev have 3: "\<exists>ev. camera_events db' = camera_events db @ [ev] \<and> event_type ev = ''motion_detected'' \<and>
                  motion_pixels (event_metadata ev) = n \<and>
                  contour_count (event_metadata ev) = int (length sig) \<and>
                  bounding_boxes (event_metadata ev) = map (bounding_box_of cv) (take 10 sig) \<and>
                  length (bounding_boxes (event_metadata ev)) \<le> 10"
      by simp
    from 1 2 3 a b c show ?thesis by blast
  qed
qed

text \<open>Two motion pixels against the threshold of 2: nothing is inserted.\<close>

lemma motion_at_threshold_emits_nothing:
  "process_frame pixel_cv2 sample_camera ''cam1'' [100, 100, 0] (Some [0, 0, 0]) ''e1'' 7 8 empty_store
     = empty_store"
  by (simp add: motion_eval)

text \<open>
  C6 on the sample data: 3 motion pixels against a threshold of 2, and contours of areas 500,
  500.5 and 812, of which the last two are significant.
\<close>

theorem motion_detection_witness:
  "countNonZero pixel_cv2 (motion_mask pixel_cv2 [0, 0, 0] [100, 100, 100]) = 3 \<and>
   motion_threshold_of sample_camera = 2 \<and>
   map (\<lambda>ev. (motion_pixels (event_metadata ev), contour_count (event_metadata ev),
               map box_area (bounding_boxes (event_metadata ev))))
     (camera_events (process_frame pixel_cv2 sample_camera ''cam1'' [100, 100, 100] (Some [0, 0, 0])
        ''e1'' 7 8 empty_store))
     = [(3, 2, [500, 812])] \<and>
   (3 > motion_threshold_of sample_camera) \<and>
   (500, (0, 0, 25, 20)) \<notin> set (significant_contours pixel_cv2
       (findContours_external pixel_cv2 (motion_mask pixel_cv2 [0, 0, 0] [100, 100, 100])))"
proof -
  let ?db' = "process_frame pixel_cv2 sample_camera ''cam1'' [100, 100, 100] (Some [0, 0, 0])
        ''e1'' 7 8 empty_store"
  let ?sig = "significant_contours pixel_cv2
       (findContours_external pixel_cv2 (motion_mask pixel_cv2 [0, 0, 0] [100, 100, 100]))"
  have n: "countNonZero pixel_cv2 (motion_mask pixel_cv2 [0, 0, 0] [100, 100, 100]) = 3"
    by (simp add: motion_eval)
  have t: "motion_threshold_of sample_camera = 2" by (simp add: motion_eval)
  have e: "map (\<lambda>ev. (motion_pixels (event_metadata ev), contour_count (event_metadata ev),
               map box_area (bounding_boxes (event_metadata ev)))) (camera_events ?db')
            = [(3, 2, [500, 812])]"
    by (simp add: motion_eval)
  have ne: "camera_events ?db' \<noteq> camera_events empty_store"
    using e by (auto simp: empty_store_def)
  have a: "contourArea pixel_cv2 (500, (0, 0, 25, 20)) = 500" by (simp add: pixel_cv2_def)
  from motion_detection_strict[of ?db' pixel_cv2 sample_camera "''cam1''" "[100, 100, 100]" "[0, 0, 0]"
      "''e1''" 7 8 empty_store 3 ?sig, OF refl n[symmetric] refl] ne a n t e
  show ?thesis by simp
qed

section \<open>Properties of the inference queue\<close>

lemmas queue_eval = submit_all.simps submit_job_def worker_take_def dispatch.simps heappush_def
  heappop_def siftdown_def siftup_def siftdown_loop.simps siftup_loop.simps entry_lt_def
  start_def stop_def InferenceQueue_init_def Let_def

lemma precedes_key: "precedes a b \<longleftrightarrow> entry_key a < entry_key b"
  by (cases a; cases b) (auto simp: precedes_def entry_key_def less_prod_def)

lemma entry_lt_keys:
  assumes "inj_on entry_key S" "a \<in> S" "b \<in> S"
  shows "entry_lt a b = Inr (entry_key a < entry_key b)"
proof (cases "entry_key a = entry_key b")
  case True
  with assms have "a = b" by (auto dest: inj_onD)
  then show ?thesis by (simp add: entry_lt_def entry_key_def split: prod.splits)
next
  case False
  then show ?thesis
    by (cases a; cases b) (auto simp: entry_lt_def entry_key_def less_prod_def)
qed

lemma parent_less: "0 < (i::nat) \<Longrightarrow> (i - 1) div 2 < i"
  by arith

lemma hole_okD1:
  "hole_ok h p \<Longrightarrow> 0 < i \<Longrightarrow> i < length h \<Longrightarrow> i \<noteq> p \<Longrightarrow> (i - 1) div 2 \<noteq> p \<Longrightarrow>
   entry_key (h ! ((i - 1) div 2)) \<le> entry_key (h ! i)"
  unfolding hole_ok_def by blast

lemma hole_okD2:
  "hole_ok h p \<Longrightarrow> 0 < p \<Longrightarrow> 0 < c \<Longrightarrow> c < length h \<Longrightarrow> (c - 1) div 2 = p \<Longrightarrow>
   entry_key (h ! ((p - 1) div 2)) \<le> entry_key (h ! c)"
  unfolding hole_ok_def by blast

lemma aboveD:
  "above x h p \<Longrightarrow> 0 < c \<Longrightarrow> c < length h \<Longrightarrow> (c - 1) div 2 = p \<Longrightarrow>
   entry_key x \<le> entry_key (h ! c)"
  unfolding above_def by blast

lemma hole_ok_update: "hole_ok (h[p := x]) p = hole_ok h p"
proof -
  have "\<And>i::nat. 0 < i \<Longrightarrow> (i - 1) div 2 \<noteq> i" by arith
  then show ?thesis unfolding hole_ok_def
    by (auto simp: nth_list_update)
qed

lemma above_update: "above x (h[p := y]) p = above x h p"
proof -
  have "\<And>c::nat. 0 < c \<Longrightarrow> (c - 1) div 2 = p \<Longrightarrow> c \<noteq> p" by arith
  then show ?thesis unfolding above_def by (auto simp: nth_list_update)
qed

lemma fill_hole:
  assumes "hole_ok h p" "above x h p" "p < length h"
    "0 < p \<longrightarrow> entry_key (h ! ((p - 1) div 2)) \<le> entry_key x"
  shows "is_heap (h[p := x])"
  unfolding is_heap_def
proof (intro allI impI)
  fix i assume i: "0 < i \<and> i < length (h[p := x])"
  then have ne: "(i - 1) div 2 \<noteq> i" by arith
  show "entry_key (h[p := x] ! ((i - 1) div 2)) \<le> entry_key (h[p := x] ! i)"
  proof (cases "i = p")
    case True
    with i ne assms(3,4) show ?thesis by (simp add: nth_list_update)
  next
    case False
    note ip = this
    show ?thesis
    proof (cases "(i - 1) div 2 = p")
      case True
      with aboveD[OF assms(2), of i] i have "entry_key x \<le> entry_key (h ! i)" by simp
      with True ip assms(3) show ?thesis by (simp add: nth_list_update)
    next
      case False
      with hole_okD1[OF assms(1), of i] i ip have "entry_key (h ! ((i - 1) div 2)) \<le> entry_key (h ! i)"
        by simp
      with False ip show ?thesis by (simp add: nth_list_update)
    qed
  qed
qed

lemma hole_move_up:
  assumes h: "hole_ok h pos" and ab: "above x h pos" and pos: "0 < pos" "pos < length h"
    and lt: "entry_key x < entry_key (h ! ((pos - 1) div 2))"
  shows "hole_ok (h[pos := h ! ((pos - 1) div 2)]) ((pos - 1) div 2)"
    and "above x (h[pos := h ! ((pos - 1) div 2)]) ((pos - 1) div 2)"
proof -
  let ?pp = "(pos - 1) div 2"
  let ?h1 = "h[pos := h ! ?pp]"
  from pos have pp: "?pp < pos" by arith
  have part1: "entry_key (?h1 ! ((i - 1) div 2)) \<le> entry_key (?h1 ! i)"
    if i: "0 < i" "i < length ?h1" "i \<noteq> ?pp" "(i - 1) div 2 \<noteq> ?pp" for i
  proof -
    from i(4) have ip: "i \<noteq> pos" by auto
    show ?thesis
    proof (cases "(i - 1) div 2 = pos")
      case True
      with hole_okD2[OF h pos(1), of i] i have "entry_key (h ! ?pp) \<le> entry_key (h ! i)" by simp
      with True ip pos show ?thesis by (simp add: nth_list_update)
    next
      case False
      with hole_okD1[OF h, of i] i ip have "entry_key (h ! ((i - 1) div 2)) \<le> entry_key (h ! i)" by simp
      with False ip show ?thesis by (simp add: nth_list_update)
    qed
  qed
  have sib: "entry_key (h ! ?pp) \<le> entry_key (h ! c)"
    if c: "0 < c" "c < length h" "(c - 1) div 2 = ?pp" "c \<noteq> pos" for c
  proof -
    from c pp have "(c - 1) div 2 \<noteq> pos" by simp
    with hole_okD1[OF h, of c] c show ?thesis by simp
  qed
  have part2: "entry_key (?h1 ! ((?pp - 1) div 2)) \<le> entry_key (?h1 ! c)"
    if c: "0 < ?pp" "0 < c" "c < length ?h1" "(c - 1) div 2 = ?pp" for c
  proof -
    let ?gp = "(?pp - 1) div 2"
    from c(1) have gp: "?gp < ?pp" by arith
    with pp have gpne: "?gp \<noteq> pos" by simp
    from hole_okD1[OF h, of ?pp] c(1) pp pos gp have e: "entry_key (h ! ?gp) \<le> entry_key (h ! ?pp)"
      by simp
    show ?thesis
    proof (cases "c = pos")
      case True
      with e gpne pos show ?thesis by (simp add: nth_list_update)
    next
      case False
      from sib[OF c(2) _ c(4) False] c(3) have "entry_key (h ! ?pp) \<le> entry_key (h ! c)" by simp
      with e False gpne show ?thesis by (simp add: nth_list_update)
    qed
  qed
  from part1 part2 show "hole_ok ?h1 ?pp" unfolding hole_ok_def by blast
  show "above x ?h1 ?pp"
    unfolding above_def
  proof (intro allI impI)
    fix c assume c: "0 < c \<and> c < length ?h1 \<and> (c - 1) div 2 = ?pp"
    show "entry_key x \<le> entry_key (?h1 ! c)"
    proof (cases "c = pos")
      case True
      with lt pos show ?thesis by (simp add: nth_list_update)
    next
      case False
      from sib[of c] c False have "entry_key (h ! ?pp) \<le> entry_key (h ! c)" by simp
      with lt False show ?thesis by (simp add: nth_list_update)
    qed
  qed
qed

lemma hole_move_down:
  assumes h: "hole_ok h pos" and c: "0 < c" "c < length h" "(c - 1) div 2 = pos"
    and least: "\<forall>s. 0 < s \<and> s < length h \<and> (s - 1) div 2 = pos \<longrightarrow> entry_key (h ! c) \<le> entry_key (h ! s)"
  shows "hole_ok (h[pos := h ! c]) c"
proof -
  let ?h1 = "h[pos := h ! c]"
  from c have pc: "pos < c" by arith
  have part1: "entry_key (?h1 ! ((i - 1) div 2)) \<le> entry_key (?h1 ! i)"
    if i: "0 < i" "i < length ?h1" "i \<noteq> c" "(i - 1) div 2 \<noteq> c" for i
  proof (cases "i = pos")
    case True
    with i have p0: "0 < pos" by simp
    then have "(pos - 1) div 2 \<noteq> pos" by arith
    moreover from hole_okD2[OF h p0, of c] c have "entry_key (h ! ((pos - 1) div 2)) \<le> entry_key (h ! c)"
      by simp
    ultimately show ?thesis using True c pc by (simp add: nth_list_update)
  next
    case False
    note ip = this
    show ?thesis
    proof (cases "(i - 1) div 2 = pos")
      case True
      with least i have "entry_key (h ! c) \<le> entry_key (h ! i)" by simp
      with True ip c pc show ?thesis by (simp add: nth_list_update)
    next
      case False
      with hole_okD1[OF h, of i] i ip have "entry_key (h ! ((i - 1) div 2)) \<le> entry_key (h ! i)" by simp
      with False ip show ?thesis by (simp add: nth_list_update)
    qed
  qed
  have part2: "entry_key (?h1 ! ((c - 1) div 2)) \<le> entry_key (?h1 ! d)"
    if d: "0 < d" "d < length ?h1" "(d - 1) div 2 = c" for d
  proof -
    from d c have dc: "c < d" by arith
    with pc have dp: "d \<noteq> pos" by simp
    from d pc have "(d - 1) div 2 \<noteq> pos" by simp
    with hole_okD1[OF h, of d] d dp have "entry_key (h ! c) \<le> entry_key (h ! d)" by simp
    with c dp show ?thesis by (simp add: nth_list_update)
  qed
  from part1 part2 show ?thesis unfolding hole_ok_def by blast
qed

lemma mset_move:
  assumes "p < length h" "q < length h" "p \<noteq> q"
  shows "mset (h[p := h ! q, q := x]) = mset (h[p := x])"
proof -
  let ?l = "h[p := x]"
  have "?l[q := ?l ! p, p := ?l ! q] = h[p := h ! q, q := x]"
    using assms by (intro nth_equalityI) (auto simp: nth_list_update)
  moreover have "mset (?l[q := ?l ! p, p := ?l ! q]) = mset ?l"
    using assms mset_swap[of p ?l q] by simp
  ultimately show ?thesis by simp
qed

lemma siftdown_loop_spec:
  assumes inj: "inj_on entry_key S" and x: "x \<in> S"
  shows "pos < length h \<Longrightarrow> set h \<subseteq> S \<Longrightarrow> hole_ok h pos \<Longrightarrow> above x h pos \<Longrightarrow>
     \<exists>h' p'. siftdown_loop h 0 pos x = (None, h', p') \<and> length h' = length h \<and> p' < length h \<and>
        set h' \<subseteq> S \<and> hole_ok h' p' \<and> above x h' p' \<and>
        (0 < p' \<longrightarrow> entry_key (h' ! ((p' - 1) div 2)) \<le> entry_key x) \<and>
        mset (h'[p' := x]) = mset (h[pos := x])"
proof (induction pos arbitrary: h rule: less_induct)
  case (less pos)
  show ?case
  proof (cases "0 < pos")
    case False
    with less.prems show ?thesis by (subst siftdown_loop.simps) simp
  next
    case True
    let ?pp = "(pos - 1) div 2"
    from True have pp: "?pp < pos" by arith
    with less.prems(1) have ppl: "?pp < length h" by simp
    with less.prems(2) have pin: "h ! ?pp \<in> S" by (auto dest: nth_mem)
    from entry_lt_keys[OF inj x pin]
    have cmp: "entry_lt x (h ! ?pp) = Inr (entry_key x < entry_key (h ! ?pp))" .
    show ?thesis
    proof (cases "entry_key x < entry_key (h ! ?pp)")
      case False
      then have "entry_key (h ! ?pp) \<le> entry_key x" by simp
      with True less.prems cmp False show ?thesis
        by (subst siftdown_loop.simps) (simp add: Let_def)
    next
      case lt: True
      let ?h1 = "h[pos := h ! ?pp]"
      from hole_move_up[OF less.prems(3,4) True less.prems(1) lt]
      have 1: "hole_ok ?h1 ?pp" "above x ?h1 ?pp" .
      have 2: "?pp < length ?h1" using ppl by simp
      have 3: "set ?h1 \<subseteq> S" using less.prems(2) pin
        by (meson insert_subset set_update_subset_insert subset_trans)
      from less.IH[OF pp 2 3 1] obtain h' p' where
        r: "siftdown_loop ?h1 0 ?pp x = (None, h', p')" "length h' = length ?h1" "p' < length ?h1"
           "set h' \<subseteq> S" "hole_ok h' p'" "above x h' p'"
           "0 < p' \<longrightarrow> entry_key (h' ! ((p' - 1) div 2)) \<le> entry_key x"
           "mset (h'[p' := x]) = mset (?h1[?pp := x])" by blast
      from pp have "pos \<noteq> ?pp" by simp
      from mset_move[OF less.prems(1) ppl this, of x] r(8)
      have m: "mset (h'[p' := x]) = mset (h[pos := x])" by simp
      have "siftdown_loop h 0 pos x = siftdown_loop ?h1 0 ?pp x"
        using True cmp lt by (subst siftdown_loop.simps) (simp add: Let_def)
      with r(1) have "siftdown_loop h 0 pos x = (None, h', p')" by simp
      with r m show ?thesis by simp
    qed
  qed
qed

lemma siftdown_spec:
  assumes inj: "inj_on entry_key S" and sub: "set h \<subseteq> S" and pos: "pos < length h"
    and hole: "hole_ok h pos" and ab: "above (h ! pos) h pos"
  shows "\<exists>h'. siftdown h 0 pos = (None, h') \<and> is_heap h' \<and> mset h' = mset h"
proof -
  let ?x = "h ! pos"
  from sub pos have x: "?x \<in> S" by (auto dest: nth_mem)
  from siftdown_loop_spec[OF inj x pos sub hole ab] obtain h' p' where
    r: "siftdown_loop h 0 pos ?x = (None, h', p')" "length h' = length h" "p' < length h"
       "hole_ok h' p'" "above ?x h' p'"
       "0 < p' \<longrightarrow> entry_key (h' ! ((p' - 1) div 2)) \<le> entry_key ?x"
       "mset (h'[p' := ?x]) = mset (h[pos := ?x])" by blast
  from fill_hole[OF r(4,5) _ r(6)] r(2,3) have "is_heap (h'[p' := ?x])" by simp
  moreover have "siftdown h 0 pos = (None, h'[p' := ?x])"
    using pos r(1) by (simp add: siftdown_def Let_def)
  ultimately show ?thesis using r(7) by simp
qed

lemma children: "0 < (s::nat) \<Longrightarrow> (s - 1) div 2 = p \<Longrightarrow> s = 2 * p + 1 \<or> s = 2 * p + 2"
  by arith

lemma siftup_loop_spec:
  assumes inj: "inj_on entry_key S"
  shows "pos < length h \<Longrightarrow> set h \<subseteq> S \<Longrightarrow> hole_ok h pos \<Longrightarrow>
     \<exists>h' p'. siftup_loop h (length h) pos = (None, h', p') \<and> length h' = length h \<and> p' < length h \<and>
        set h' \<subseteq> S \<and> hole_ok h' p' \<and> length h \<le> 2 * p' + 1 \<and>
        (\<forall>x. mset (h'[p' := x]) = mset (h[pos := x]))"
proof (induction "length h - pos" arbitrary: h pos rule: less_induct)
  case less
  let ?l = "2 * pos + 1"
  let ?r = "2 * pos + 2"
  show ?case
  proof (cases "?l < length h")
    case False
    with less.prems show ?thesis by (subst siftup_loop.simps) (simp add: Let_def)
  next
    case True
    define lt where "lt = (if ?r < length h then entry_key (h ! ?l) < entry_key (h ! ?r) else True)"
    define c where "c = (if ?r < length h \<and> \<not> lt then ?r else ?l)"
    have cmp: "(if ?r < length h then entry_lt (h ! ?l) (h ! ?r) else Inr True) = Inr lt"
    proof (cases "?r < length h")
      case False then show ?thesis by (simp add: lt_def)
    next
      case r: True
      from less.prems(2) True r have "h ! ?l \<in> S" "h ! ?r \<in> S"
        by (metis nth_mem subsetD)+
      from entry_lt_keys[OF inj this] r show ?thesis by (simp add: lt_def)
    qed
    have c: "0 < c" "c < length h" "(c - 1) div 2 = pos"
      using True by (auto simp: c_def)
    have least: "\<forall>s. 0 < s \<and> s < length h \<and> (s - 1) div 2 = pos \<longrightarrow> entry_key (h ! c) \<le> entry_key (h ! s)"
    proof (intro allI impI)
      fix s assume s: "0 < s \<and> s < length h \<and> (s - 1) div 2 = pos"
      with children[of s pos] have "s = ?l \<or> s = ?r" by simp
      then show "entry_key (h ! c) \<le> entry_key (h ! s)"
        using s by (auto simp: c_def lt_def split: if_splits)
    qed
    let ?h1 = "h[pos := h ! c]"
    from hole_move_down[OF less.prems(3) c least] have 1: "hole_ok ?h1 c" .
    from c have pc: "pos < c" by arith
    have 2: "length ?h1 - c < length h - pos" using c pc by simp
    have 3: "c < length ?h1" using c by simp
    have 4: "set ?h1 \<subseteq> S" using less.prems(2) c
      by (meson insert_subset nth_mem set_update_subset_insert subsetD subset_trans)
    from less.hyps[OF 2 3 4 1] obtain h' p' where
      r: "siftup_loop ?h1 (length ?h1) c = (None, h', p')" "length h' = length ?h1" "p' < length ?h1"
         "set h' \<subseteq> S" "hole_ok h' p'" "length ?h1 \<le> 2 * p' + 1"
         "\<forall>x. mset (h'[p' := x]) = mset (?h1[c := x])" by blast
    have m: "\<forall>x. mset (h'[p' := x]) = mset (h[pos := x])"
    proof
      fix x
      from mset_move[OF less.prems(1) c(2), of x] pc r(7)[rule_format, of x]
      show "mset (h'[p' := x]) = mset (h[pos := x])"
        by simp
    qed
    have "siftup_loop h (length h) pos = siftup_loop ?h1 (length h) c"
      using cmp True by (subst siftup_loop.simps) (auto simp: Let_def c_def split: if_splits)
    with r(1) have "siftup_loop h (length h) pos = (None, h', p')" by simp
    with r m show ?thesis by simp
  qed
qed

lemma siftup_spec:
  assumes inj: "inj_on entry_key S" and sub: "set h \<subseteq> S" and ne: "h \<noteq> []" and hole: "hole_ok h 0"
  shows "\<exists>h'. siftup h 0 = (None, h') \<and> is_heap h' \<and> mset h' = mset h"
proof -
  let ?x = "h ! 0"
  from ne have pos: "0 < length h" by simp
  with sub have x: "?x \<in> S" by (auto dest: nth_mem)
  from siftup_loop_spec[OF inj pos sub hole] obtain h1 p1 where
    r: "siftup_loop h (length h) 0 = (None, h1, p1)" "length h1 = length h" "p1 < length h"
       "set h1 \<subseteq> S" "hole_ok h1 p1" "length h \<le> 2 * p1 + 1"
       "\<forall>x. mset (h1[p1 := x]) = mset (h[0 := x])" by blast
  let ?h2 = "h1[p1 := ?x]"
  have 1: "set ?h2 \<subseteq> S" using r(4) x
    by (meson insert_subset set_update_subset_insert subset_trans)
  have 2: "p1 < length ?h2" using r(2,3) by simp
  have 3: "hole_ok ?h2 p1" using r(5) by (simp add: hole_ok_update)
  have 4: "above (?h2 ! p1) ?h2 p1"
    unfolding above_def
  proof (intro allI impI)
    fix c assume c: "0 < c \<and> c < length ?h2 \<and> (c - 1) div 2 = p1"
    with children[of c p1] have "2 * p1 + 1 \<le> c" by auto
    with r(6) r(2) c have False by simp
    then show "entry_key (?h2 ! p1) \<le> entry_key (?h2 ! c)" ..
  qed
  from siftdown_spec[OF inj 1 2 3 4] obtain h' where
    d: "siftdown ?h2 0 p1 = (None, h')" "is_heap h'" "mset h' = mset ?h2" by blast
  have "siftup h 0 = (None, h')"
    using pos r(1) d(1) by (simp add: siftup_def Let_def)
  moreover from d(3) r(7)[rule_format, of ?x] have "mset h' = mset h" by simp
  ultimately show ?thesis using d(2) by simp
qed

lemma heap_root_min:
  "is_heap h \<Longrightarrow> i < length h \<Longrightarrow> entry_key (h ! 0) \<le> entry_key (h ! i)"
proof (induction i rule: less_induct)
  case (less i)
  show ?case
  proof (cases "i = 0")
    case True then show ?thesis by simp
  next
    case False
    then have p: "(i - 1) div 2 < i" by arith
    with less.prems have "(i - 1) div 2 < length h" by simp
    from less.IH[OF p less.prems(1) this]
    have "entry_key (h ! 0) \<le> entry_key (h ! ((i - 1) div 2))" .
    moreover from less.prems False have "entry_key (h ! ((i - 1) div 2)) \<le> entry_key (h ! i)"
      by (simp add: is_heap_def)
    ultimately show ?thesis by (rule order_trans)
  qed
qed

lemma heappush_spec:
  assumes inj: "inj_on entry_key (insert item (set h))" and heap: "is_heap h"
  shows "\<exists>h'. heappush h item = (None, h') \<and> is_heap h' \<and> mset h' = mset h + {#item#}"
proof -
  let ?h = "h @ [item]"
  let ?n = "length h"
  have sub: "set ?h \<subseteq> insert item (set h)" by auto
  have pos: "?n < length ?h" by simp
  have hole: "hole_ok ?h ?n"
    unfolding hole_ok_def
  proof (intro conjI allI impI)
    fix i assume i: "0 < i \<and> i < length ?h \<and> i \<noteq> ?n \<and> (i - 1) div 2 \<noteq> ?n"
    then have il: "i < ?n" by simp
    then have "(i - 1) div 2 < ?n" by arith
    with il heap i show "entry_key (?h ! ((i - 1) div 2)) \<le> entry_key (?h ! i)"
      by (simp add: nth_append is_heap_def)
  next
    fix c assume "0 < ?n" and c: "0 < c \<and> c < length ?h \<and> (c - 1) div 2 = ?n"
    with children[of c ?n] have False by auto
    then show "entry_key (?h ! ((?n - 1) div 2)) \<le> entry_key (?h ! c)" ..
  qed
  have ab: "above (?h ! ?n) ?h ?n"
    unfolding above_def
  proof (intro allI impI)
    fix c assume c: "0 < c \<and> c < length ?h \<and> (c - 1) div 2 = ?n"
    with children[of c ?n] have False by auto
    then show "entry_key (?h ! ?n) \<le> entry_key (?h ! c)" ..
  qed
  from siftdown_spec[OF inj sub pos hole ab] show ?thesis by (simp add: heappush_def)
qed

lemma heappop_spec:
  assumes inj: "inj_on entry_key (set h)" and heap: "is_heap h" and ne: "h \<noteq> []"
  shows "\<exists>h'. heappop h = (Inr (h ! 0), h') \<and> is_heap h' \<and> mset h' = mset h - {#h ! 0#}"
proof (cases "butlast h = []")
  case True
  with ne have h: "h = [last h]" by (metis append_butlast_last_id append_Nil)
  then have "h ! 0 = last h" by (metis nth_Cons_0)
  with True ne h show ?thesis
    by (simp add: heappop_def Let_def is_heap_def) (metis add_mset_remove_trivial mset.simps mset_single_iff_right)
next
  case False
  let ?b = "butlast h"
  let ?h2 = "?b[0 := last h]"
  from ne obtain x0 t where h: "h = x0 # t" by (cases h) auto
  with False have t: "t \<noteq> []" by auto
  have b: "?b = x0 # butlast t" using h t by simp
  have h2: "?h2 = last t # butlast t" using b h t by simp
  have mh: "mset ?h2 = mset h - {#h ! 0#}"
  proof -
    have "mset t = mset (butlast t) + {#last t#}"
      using t by (metis append_butlast_last_id mset.simps(1) mset.simps(2) mset_append union_mset_add_mset_right add.right_neutral)
    then show ?thesis using h h2 by simp
  qed
  have sub: "set ?h2 \<subseteq> set h"
    using h t h2 by (auto dest: in_set_butlastD)
  have ne2: "?h2 \<noteq> []" using h2 by simp
  have len: "length ?h2 = length h - 1" by simp
  have hole: "hole_ok ?h2 0"
    unfolding hole_ok_def
  proof (intro conjI allI impI)
    fix i assume i: "0 < i \<and> i < length ?h2 \<and> i \<noteq> 0 \<and> (i - 1) div 2 \<noteq> 0"
    then have il: "i < length h" by auto
    from i have pl: "(i - 1) div 2 < length ?b" by auto
    from i have "?h2 ! i = h ! i" "?h2 ! ((i - 1) div 2) = h ! ((i - 1) div 2)"
      using pl by (simp_all add: nth_butlast)
    with heap i il show "entry_key (?h2 ! ((i - 1) div 2)) \<le> entry_key (?h2 ! i)"
      by (simp add: is_heap_def)
  next
    fix c assume "(0::nat) < 0"
    then show "entry_key (?h2 ! ((0 - 1) div 2)) \<le> entry_key (?h2 ! c)" by simp
  qed
  from siftup_spec[OF inj sub ne2 hole] obtain h' where
    r: "siftup ?h2 0 = (None, h')" "is_heap h'" "mset h' = mset ?h2" by blast
  have "?b ! 0 = h ! 0" using b h by simp
  with r(1) ne False have "heappop h = (Inr (h ! 0), h')"
    by (simp add: heappop_def Let_def)
  with r mh show ?thesis by simp
qed



lemma distinct_sub:
  assumes "distinct xs" "mset ys \<subseteq># mset xs"
  shows "distinct ys"
proof -
  have "count (mset ys) a = (if a \<in> set ys then 1 else 0)" for a
  proof -
    from assms(2) have "count (mset ys) a \<le> count (mset xs) a" by (rule mset_subset_eq_count)
    also from assms(1) have "\<dots> \<le> 1" using distinct_count_atmost_1[of xs] by auto
    finally have "count (mset ys) a \<le> 1" .
    then have le: "count (mset ys) a \<le> 1" .
    show ?thesis
    proof (cases "a \<in> set ys")
      case True
      then have p: "0 < count (mset ys) a" by simp
      from p le show ?thesis unfolding if_P[OF True] by linarith
    next
      case False
      then show ?thesis by (simp add: count_eq_zero_iff)
    qed
  qed
  then show ?thesis by (simp add: distinct_count_atmost_1)
qed

lemma distinct_map_sub:
  assumes "distinct (map f xs)" "mset ys \<subseteq># mset xs"
  shows "distinct (map f ys)"
proof -
  from assms(2) have "mset (map f ys) \<subseteq># mset (map f xs)"
    by (simp add: image_mset_subseteq_mono)
  from distinct_sub[OF assms(1) this] show ?thesis .
qed

lemma entry_key_mark [simp]: "entry_key (mark_processing now e) = entry_key e"
  by (cases e) (simp add: mark_processing_def entry_key_def)

lemma worker_take_spec:
  assumes run: "running q" and heap: "is_heap (queue q)"
    and dist: "distinct (map entry_key (queue q))" and ne: "queue q \<noteq> []"
  shows "\<exists>q'. worker_take q now = (Some (mark_processing now (queue q ! 0)), q') \<and>
           running q' \<and> is_heap (queue q') \<and>
           mset (queue q') = mset (queue q) - {#queue q ! 0#} \<and>
           distinct (map entry_key (queue q')) \<and>
           (\<forall>e \<in> set (queue q'). entry_key (queue q ! 0) < entry_key e)"
proof -
  let ?h = "queue q"
  from dist have inj: "inj_on entry_key (set ?h)" and dh: "distinct ?h"
    by (simp_all add: distinct_map)
  from heappop_spec[OF inj heap ne] obtain h' where
    r: "heappop ?h = (Inr (?h ! 0), h')" "is_heap h'" "mset h' = mset ?h - {#?h ! 0#}" by blast
  obtain p t job where x: "?h ! 0 = (p, t, job)" by (cases "?h ! 0")
  let ?q' = "q\<lparr>queue := h', jobs := AList.update (job_id job)
                 (job\<lparr>status := PROCESSING, started_at := Some now\<rparr>) (jobs q)\<rparr>"
  have w: "worker_take q now = (Some (mark_processing now (?h ! 0)), ?q')"
    using run ne r(1) x by (simp add: worker_take_def mark_processing_def Let_def)
  have sub: "mset h' \<subseteq># mset ?h" using r(3) by (metis diff_subset_eq_self)
  have d': "distinct (map entry_key h')" by (rule distinct_map_sub[OF dist sub])
  have x0: "?h ! 0 \<in> set ?h" using ne by simp
  have less: "\<forall>e \<in> set h'. entry_key (?h ! 0) < entry_key e"
  proof
    fix e assume e: "e \<in> set h'"
    then have "e \<in># mset ?h - {#?h ! 0#}" using r(3) by (metis set_mset_mset)
    then have eh: "e \<in> set ?h" by (metis in_diffD set_mset_mset)
    have "e \<noteq> ?h ! 0"
    proof
      assume "e = ?h ! 0"
      with \<open>e \<in># mset ?h - {#?h ! 0#}\<close> have "count {#?h ! 0#} (?h ! 0) < count (mset ?h) (?h ! 0)"
        by (simp add: in_diff_count)
      moreover from x0 have "count (mset ?h) (?h ! 0) = 1"
        using distinct_count_atmost_1[THEN iffD1, OF dh, rule_format, of "?h ! 0"] by simp
      ultimately show False by simp
    qed
    with inj eh x0 have kne: "entry_key e \<noteq> entry_key (?h ! 0)" by (auto dest: inj_onD)
    from eh obtain i where "i < length ?h" "?h ! i = e" by (auto simp: in_set_conv_nth)
    with heap_root_min[OF heap, of i] have "entry_key (?h ! 0) \<le> entry_key e" by simp
    with kne show "entry_key (?h ! 0) < entry_key e" by simp
  qed
  from w run r d' less show ?thesis by simp
qed

lemma dispatch_sorted:
  "running q \<Longrightarrow> is_heap (queue q) \<Longrightarrow> distinct (map entry_key (queue q)) \<Longrightarrow>
   length (queue q) = n \<Longrightarrow>
   sorted_wrt precedes (dispatch n q now) \<and>
   mset (dispatch n q now) = mset (map (mark_processing now) (queue q))"
proof (induction n arbitrary: q)
  case 0
  then show ?case by simp
next
  case (Suc n)
  let ?h = "queue q"
  let ?x = "?h ! 0"
  from Suc.prems(4) have ne: "?h \<noteq> []" by auto
  from worker_take_spec[OF Suc.prems(1,2,3) ne, of now] obtain q' where
    w: "worker_take q now = (Some (mark_processing now ?x), q')" "running q'" "is_heap (queue q')"
       "mset (queue q') = mset ?h - {#?x#}" "distinct (map entry_key (queue q'))"
       "\<forall>e \<in> set (queue q'). entry_key ?x < entry_key e" by blast
  have xin: "?x \<in># mset ?h" using ne by simp
  have "size (mset (queue q')) = size (mset ?h) - 1"
    using w(4) xin by (simp add: size_Diff_singleton)
  with Suc.prems(4) have len: "length (queue q') = n" by simp
  from Suc.IH[OF w(2,3,5) len]
  have ih: "sorted_wrt precedes (dispatch n q' now)"
    "mset (dispatch n q' now) = mset (map (mark_processing now) (queue q'))" by simp_all
  have d: "dispatch (Suc n) q now = mark_processing now ?x # dispatch n q' now"
    using w(1) by simp
  have first: "\<forall>y \<in> set (dispatch n q' now). precedes (mark_processing now ?x) y"
  proof
    fix y assume "y \<in> set (dispatch n q' now)"
    then have "y \<in># mset (map (mark_processing now) (queue q'))" using ih(2) by (metis set_mset_mset)
    then obtain e where e: "e \<in> set (queue q')" "y = mark_processing now e" by auto
    with w(6) show "precedes (mark_processing now ?x) y" by (simp add: precedes_key)
  qed
  have "mset ?h = add_mset ?x (mset ?h - {#?x#})" using xin by simp
  then have "image_mset (mark_processing now) (mset ?h) =
     add_mset (mark_processing now ?x) (image_mset (mark_processing now) (mset (queue q')))"
    using w(4) by (metis image_mset_add_mset)
  with ih(2) have m: "mset (dispatch (Suc n) q now) = mset (map (mark_processing now) ?h)"
    using d by simp
  from d first ih(1) m show ?case by simp
qed

lemma submit_job_heap:
  assumes "running q" "int (length (queue q)) < max_queue_size q" "is_heap (queue q)"
    "distinct (map entry_key (queue q))" "\<forall>e \<in> set (queue q). entry_key e \<noteq> (- p, tq)"
  shows "\<exists>q'. submit_job q m img ty ps p cb uuid tc tq = (Inr uuid, q') \<and> running q' \<and>
           is_heap (queue q') \<and> distinct (map entry_key (queue q')) \<and>
           max_queue_size q' = max_queue_size q \<and>
           (\<exists>job. mset (queue q') = mset (queue q) + {#(- p, tq, job)#} \<and> job_id job = uuid \<and>
                  priority job = p \<and> status job = PENDING)"
proof -
  let ?job = "\<lparr>job_id = uuid, model_id = m, image_data = img, inference_type = ty,
                parameters = (case ps of None \<Rightarrow> [] | Some ps \<Rightarrow> ps),
                callback = cb, created_at = tc, started_at = None,
                completed_at = None, status = PENDING, result = None, job_error = None,
                priority = p\<rparr>"
  let ?item = "(- p, tq, ?job)"
  have k: "entry_key ?item = (- p, tq)" by (simp add: entry_key_def)
  from assms(4,5) k have inj: "inj_on entry_key (insert ?item (set (queue q)))"
    by (auto simp: distinct_map inj_on_def)
  from heappush_spec[OF inj assms(3)] obtain h' where
    r: "heappush (queue q) ?item = (None, h')" "is_heap h'" "mset h' = mset (queue q) + {#?item#}"
    by blast
  have "mset (map entry_key h') = mset (map entry_key (?item # queue q))"
    using r(3) by simp
  moreover have "distinct (map entry_key (?item # queue q))" using assms(4,5) k by auto
  ultimately have d: "distinct (map entry_key h')" by (metis mset_eq_imp_distinct_iff)
  from assms(1,2) r d show ?thesis
    by (simp add: submit_job_def Let_def)
qed

lemma entry_tag_mark [simp]: "entry_tag (mark_processing now e) = entry_tag e"
  by (cases e) (simp add: entry_tag_def entry_key_def mark_processing_def)

lemma submit_all_heap:
  "running q \<Longrightarrow> is_heap (queue q) \<Longrightarrow>
   distinct (map entry_key (queue q) @ map (fst \<circ> request_tag) js) \<Longrightarrow>
   int (length (queue q) + length js) \<le> max_queue_size q \<Longrightarrow>
   running (submit_all q js) \<and> is_heap (queue (submit_all q js)) \<and>
   distinct (map entry_key (queue (submit_all q js))) \<and>
   mset (map entry_tag (queue (submit_all q js))) =
     mset (map entry_tag (queue q)) + mset (map request_tag js)"
proof (induction js arbitrary: q)
  case Nil
  then show ?case by simp
next
  case (Cons r js)
  obtain name p t where r: "r = (name, p, t)" by (cases r)
  from Cons.prems(3) r have "(- p, t) \<notin> entry_key ` set (queue q)"
    by (auto simp: request_tag_def)
  then have fresh: "\<forall>e \<in> set (queue q). entry_key e \<noteq> (- p, t)"
    by (metis imageI)
  from Cons.prems(3) have d0: "distinct (map entry_key (queue q))" by simp
  from Cons.prems(4) have room: "int (length (queue q)) < max_queue_size q" by simp
  from submit_job_heap[OF Cons.prems(1) room Cons.prems(2) d0 fresh, of "''yolo''" "[]" "''detect''" None None name t]
  obtain q' job where
    s: "submit_job q ''yolo'' [] ''detect'' None p None name t t = (Inr name, q')" "running q'"
       "is_heap (queue q')" "distinct (map entry_key (queue q'))" "max_queue_size q' = max_queue_size q"
       "mset (queue q') = mset (queue q) + {#(- p, t, job)#}" "job_id job = name" by blast
  have tag: "mset (map entry_tag (queue q')) = mset (map entry_tag (queue q)) + {#request_tag r#}"
  proof -
    have "mset (map entry_tag (queue q')) = image_mset entry_tag (mset (queue q'))" by simp
    also have "\<dots> = image_mset entry_tag (mset (queue q)) + {#entry_tag (- p, t, job)#}"
      using s(6) by simp
    finally show ?thesis using s(7) r by (simp add: entry_tag_def entry_key_def request_tag_def)
  qed
  have keys: "mset (map entry_key (queue q')) = mset (map entry_key (queue q)) + {#(- p, t)#}"
  proof -
    have "mset (map entry_key (queue q')) = image_mset entry_key (mset (queue q'))" by simp
    also have "\<dots> = image_mset entry_key (mset (queue q)) + {#entry_key (- p, t, job)#}"
      using s(6) by simp
    finally show ?thesis by (simp add: entry_key_def)
  qed
  have "mset (map entry_key (queue q') @ map (fst \<circ> request_tag) js) =
        mset (map entry_key (queue q) @ map (fst \<circ> request_tag) (r # js))"
    using keys r by (simp add: request_tag_def)
  with Cons.prems(3) have d1: "distinct (map entry_key (queue q') @ map (fst \<circ> request_tag) js)"
    by (metis mset_eq_imp_distinct_iff)
  have "length (queue q') = length (queue q) + 1"
    using s(6) by (metis size_mset size_union size_single add.commute plus_1_eq_Suc Suc_eq_plus1)
  with Cons.prems(4) s(5) have room': "int (length (queue q') + length js) \<le> max_queue_size q'" by simp
  from Cons.IH[OF s(2,3) d1 room'] tag s(1) r show ?case by (simp add: add.assoc)
qed

lemma sorted_tags_unique:
  assumes "sorted (map fst xs)" "distinct (map fst xs)" "sorted (map fst ys)" "distinct (map fst ys)"
    "mset xs = mset ys"
  shows "xs = (ys :: ((int \<times> int) \<times> string) list)"
proof -
  from assms(5) have set: "set xs = set ys" by (rule mset_eq_setD)
  from assms(2) have "inj_on fst (set xs)" by (simp add: distinct_map)
  with set have "inj_on fst (set xs \<union> set ys)" by simp
  from map_sorted_distinct_set_unique[OF this assms(1,2,3,4) set] show ?thesis .
qed

lemma dispatch_submitted:
  assumes dist: "distinct (map (\<lambda>(name, p, t). (p, t)) js)" and room: "int (length js) \<le> mqs"
  shows "map (\<lambda>(p, t, job). job_id job)
           (dispatch (length js) (submit_all (start (InferenceQueue_init w s mqs)) js) now)
         = map fst (sort_key (\<lambda>(name, p, t). (- p, t)) js)"
proof -
  let ?start = "start (InferenceQueue_init w s mqs)"
  let ?sub = "submit_all ?start js"
  let ?D = "dispatch (length js) ?sub now"
  let ?S = "sort_key (\<lambda>(name, p, t). (- p, t)) js"
  have q0: "running ?start" "queue ?start = []" "max_queue_size ?start = mqs"
    by (simp_all add: start_def InferenceQueue_init_def)
  have kf: "(fst \<circ> request_tag) = (\<lambda>(name, p, t). (- p, t))"
    by (auto simp: request_tag_def fun_eq_iff)
  have "map (fst \<circ> request_tag) js = map (\<lambda>(a, b). (- a, b)) (map (\<lambda>(name, p, t). (p, t)) js)"
    by (simp add: kf split_def)
  moreover have "inj (\<lambda>(a :: int, b :: int). (- a, b))" by (auto simp: inj_on_def)
  ultimately have dk: "distinct (map (fst \<circ> request_tag) js)"
    using dist by (metis distinct_map inj_on_subset subset_UNIV)
  have h0: "is_heap (queue ?start)" by (simp add: q0 is_heap_def)
  from submit_all_heap[OF q0(1) h0, of js] dk room q0
  have inv: "running ?sub" "is_heap (queue ?sub)" "distinct (map entry_key (queue ?sub))"
    "mset (map entry_tag (queue ?sub)) = mset (map request_tag js)" by simp_all
  from inv(4) have "size (mset (map entry_tag (queue ?sub))) = size (mset (map request_tag js))" by simp
  then have len: "length (queue ?sub) = length js" by simp
  from dispatch_sorted[OF inv(1,2,3) len, of now]
  have D: "sorted_wrt precedes ?D" "mset ?D = mset (map (mark_processing now) (queue ?sub))" by simp_all
  have "mset (map entry_tag ?D) = image_mset entry_tag (mset ?D)" by simp
  also have "\<dots> = mset (map entry_tag (queue ?sub))" using D(2) by (simp add: image_mset.compositionality comp_def)
  finally have mD: "mset (map entry_tag ?D) = mset (map request_tag js)" using inv(4) by simp
  have mS: "mset (map request_tag ?S) = mset (map request_tag js)" by simp
  have fD: "map fst (map entry_tag ?D) = map entry_key ?D" by (simp add: entry_tag_def)
  have "precedes = (\<lambda>x y. entry_key x < entry_key y)"
    by (intro ext) (rule precedes_key)
  with D(1) have "sorted_wrt (<) (map entry_key ?D)"
    by (simp add: sorted_wrt_map)
  then have "sorted (map entry_key ?D) \<and> distinct (map entry_key ?D)"
    by (simp add: strict_sorted_iff)
  then have sD: "sorted (map fst (map entry_tag ?D))" "distinct (map fst (map entry_tag ?D))"
    unfolding fD by blast+
  have fS: "map fst (map request_tag ?S) = map (\<lambda>(name, p, t). (- p, t)) ?S"
    by (simp add: kf[symmetric])
  have sS: "sorted (map fst (map request_tag ?S))" unfolding fS by (rule sorted_sort_key)
  have "mset (map (fst \<circ> request_tag) ?S) = mset (map (fst \<circ> request_tag) js)" by simp
  with dk have "distinct (map (fst \<circ> request_tag) ?S)" by (metis mset_eq_imp_distinct_iff)
  then have dS: "distinct (map fst (map request_tag ?S))" by simp
  from sorted_tags_unique[OF sD sS dS] mD mS
  have eq: "map entry_tag ?D = map request_tag ?S" by simp
  have "map (\<lambda>(p, t, job). job_id job) ?D = map snd (map entry_tag ?D)"
    by (simp add: entry_tag_def split_def)
  also have "\<dots> = map snd (map request_tag ?S)" using eq by simp
  also have "\<dots> = map fst ?S" by (simp add: request_tag_def split_def)
  finally show ?thesis .
qed

text \<open>
  Dispatch order when no two entries share priority and timestamp. A worker that takes all
  queued entries takes them in the order \<open>precedes\<close>: higher priority first, and among
  equal priorities the earlier submission timestamp first, and it takes exactly the queued
  entries. This holds in every running queue whose list is a heap with pairwise different
  (priority, timestamp) keys, which submissions with fresh timestamps and the worker's own
  dequeues preserve. In particular, when requests with pairwise different (priority,
  timestamp) are submitted to a freshly started queue that has room for them, the jobs are
  dispatched in the order of the requests sorted by descending priority and then ascending
  timestamp. With J1 (priority 1), J2 (1), J3 (5), J4 (3) submitted in that order the
  dispatch order is J3, J4, J1, J2.
\<close>

theorem dispatch_order_distinct_keys:
  "(running q \<and> is_heap (queue q) \<and> distinct (map entry_key (queue q)) \<longrightarrow>
      sorted_wrt precedes (dispatch (length (queue q)) q now) \<and>
      mset (dispatch (length (queue q)) q now) = mset (map (mark_processing now) (queue q))) \<and>
   (distinct (map (\<lambda>(name, p, t). (p, t)) js) \<and> int (length js) \<le> mqs \<longrightarrow>
      map (\<lambda>(p, t, job). job_id job)
        (dispatch (length js) (submit_all (start (InferenceQueue_init w s mqs)) js) now)
      = map fst (sort_key (\<lambda>(name, p, t). (- p, t)) js)) \<and>
   map (\<lambda>(p, t, job). job_id job) (dispatch 4 four_jobs 500) = [''J3'', ''J4'', ''J1'', ''J2'']"
proof (intro conjI impI)
  assume "running q \<and> is_heap (queue q) \<and> distinct (map entry_key (queue q))"
  then show "sorted_wrt precedes (dispatch (length (queue q)) q now)"
    and "mset (dispatch (length (queue q)) q now) = mset (map (mark_processing now) (queue q))"
    using dispatch_sorted[of q "length (queue q)" now] by simp_all
next
  assume "distinct (map (\<lambda>(name, p, t). (p, t)) js) \<and> int (length js) \<le> mqs"
  then show "map (\<lambda>(p, t, job). job_id job)
        (dispatch (length js) (submit_all (start (InferenceQueue_init w s mqs)) js) now)
      = map fst (sort_key (\<lambda>(name, p, t). (- p, t)) js)"
    using dispatch_submitted[of js mqs w s now] by simp
next
  show "map (\<lambda>(p, t, job). job_id job) (dispatch 4 four_jobs 500) = [''J3'', ''J4'', ''J1'', ''J2'']"
    by (simp add: four_jobs_def queue_eval eval_nat_numeral)
qed

lemma four_jobs_queue:
  "map (\<lambda>(p, t, job). (p, t, job_id job)) (queue four_jobs) =
     [(- 5, 300, ''J3''), (- 3, 400, ''J4''), (- 1, 100, ''J1''), (- 1, 200, ''J2'')]"
  "running four_jobs"
  by (simp_all add: four_jobs_def queue_eval)

lemma four_jobs_heap: "is_heap (queue four_jobs)" "distinct (map entry_key (queue four_jobs))"
proof -
  have k: "map entry_key (queue four_jobs) = [(- 5, 300), (- 3, 400), (- 1, 100), (- 1, 200)]"
    by (simp add: four_jobs_def queue_eval entry_key_def)
  then show "distinct (map entry_key (queue four_jobs))" by simp
  have len: "length (queue four_jobs) = 4" by (simp add: four_jobs_def queue_eval)
  have nth: "entry_key (queue four_jobs ! i) = map entry_key (queue four_jobs) ! i" if "i < 4" for i
    using that len by simp
  show "is_heap (queue four_jobs)"
    unfolding is_heap_def
  proof (intro allI impI)
    fix i assume i: "0 < i \<and> i < length (queue four_jobs)"
    then have "i = 1 \<or> i = 2 \<or> i = 3" using len by auto
    then show "entry_key (queue four_jobs ! ((i - 1) div 2)) \<le> entry_key (queue four_jobs ! i)"
      using nth[of i] nth[of "(i - 1) div 2"] k by (auto simp: less_eq_prod_def)
  qed
qed

text \<open>That order on the queue of the four jobs.\<close>

theorem dispatch_order_four_jobs:
  "running four_jobs \<and> is_heap (queue four_jobs) \<and> distinct (map entry_key (queue four_jobs)) \<and>
   length (queue four_jobs) = 4 \<and>
   sorted_wrt precedes (dispatch 4 four_jobs 500) \<and>
   mset (dispatch 4 four_jobs 500) = mset (map (mark_processing 500) (queue four_jobs)) \<and>
   distinct (map (\<lambda>(name, p, t). (p, t))
      [(''J1'', 1, 100), (''J2'', 1, 200), (''J3'', 5, 300), (''J4'', 3, 400 :: int)] :: (int \<times> int) list) \<and>
   int (length [(''J1'', 1 :: int, 100 :: int), (''J2'', 1, 200), (''J3'', 5, 300), (''J4'', 3, 400)]) \<le> 10 \<and>
   map (\<lambda>(p, t, job). job_id job) (dispatch 4 four_jobs 500)
     = map fst (sort_key (\<lambda>(name, p, t). (- p, t))
         [(''J1'', 1 :: int, 100 :: int), (''J2'', 1, 200), (''J3'', 5, 300), (''J4'', 3, 400)])"
proof -
  let ?js = "[(''J1'', 1 :: int, 100 :: int), (''J2'', 1, 200), (''J3'', 5, 300), (''J4'', 3, 400)]"
  have len: "length (queue four_jobs) = 4" by (simp add: four_jobs_def queue_eval)
  have d: "distinct (map (\<lambda>(name, p, t). (p, t)) ?js)" by simp
  have r: "int (length ?js) \<le> 10" by simp
  have l4: "length ?js = 4" by simp
  from dispatch_order_distinct_keys[of four_jobs 500 ?js 10 "Some 1" 4] four_jobs_queue(2) four_jobs_heap len d r
  show ?thesis unfolding four_jobs_def l4 by simp
qed

text \<open>
  C1. The claim is that for every set of queued jobs a worker dequeues the job of highest
  priority first and, among jobs of equal priority, the one submitted earliest. That holds
  as long as no two queued entries have both the same priority and the same timestamp
  (theorem \<open>dispatch_order_distinct_keys\<close>). \<^verbatim>\<open>submit_job\<close> takes the timestamp from the clock
  and queues \<^verbatim>\<open>(-priority, timestamp, job)\<close>, so two entries can agree on both, and Python
  then compares the jobs themselves, which raises \<^verbatim>\<open>TypeError\<close>. With A (priority 5, time
  100), B (priority 1, time 200), C (priority 1, time 300) and D (priority 1, time 300)
  submitted in that order, all four are admitted and queued. The worker takes A. In its
  second pass \<^verbatim>\<open>heappop\<close> has already taken B off the heap when the comparison of C with D
  raises, so B is returned to nobody: the worker goes on to take D and then C, the queue
  is empty, and B, submitted before C and D at their priority, is never dispatched and
  stays \<^verbatim>\<open>PENDING\<close>.
\<close>

theorem equal_timestamps_lose_a_job:
  "map fst (jobs tied_jobs) = [''A'', ''B'', ''C'', ''D''] \<and>
   map (\<lambda>(p, t, job). (job_id job, priority job, t)) (queue tied_jobs)
     = [(''A'', 5, 100), (''B'', 1, 200), (''C'', 1, 300), (''D'', 1, 300)] \<and>
   total_jobs (queue_stats tied_jobs) = 4 \<and>
   map (\<lambda>(p, t, job). job_id job) (dispatch 1 tied_jobs 500) = [''A''] \<and>
   fst (heappop (queue (dispatch_state 1 tied_jobs 500))) = Inl TypeError \<and>
   map (\<lambda>(p, t, job). job_id job) (dispatch 4 tied_jobs 500) = [''A'', ''D'', ''C''] \<and>
   map (\<lambda>(p, t, job). job_id job) (dispatch 9 tied_jobs 500) = [''A'', ''D'', ''C''] \<and>
   queue (dispatch_state 4 tied_jobs 500) = [] \<and>
   map (\<lambda>(name, job). (name, status job)) (jobs (dispatch_state 4 tied_jobs 500))
     = [(''A'', PROCESSING), (''B'', PENDING), (''C'', PROCESSING), (''D'', PROCESSING)]"
  by (simp add: tied_jobs_def queue_eval dispatch_state.simps eval_nat_numeral)






end
